theory Spec2Isabelle
  imports Main "HOL-Library.Char_ord" "HOL-Library.List_Lexorder"
begin

section \<open>Data model\<close>

text \<open>
  The plugin (\<^verbatim>\<open>src/index.ts\<close>) collects, for every page under the views directory, the
  endpoints the page and the components it imports use. It keeps four module-level
  variables: \<^verbatim>\<open>viewApiData\<close>, \<^verbatim>\<open>apiDefinitions\<close>, \<^verbatim>\<open>componentCache\<close> and
  \<^verbatim>\<open>processingStack\<close>.

  A JavaScript string is a \<open>string\<close>; a \<open>char\<close> is read as the code unit with the same
  number (U+0000 to U+00FF). A file path is a string.
\<close>

type_synonym path = string

text \<open>\<^verbatim>\<open>interface ApiInfo { url: string; method: string; functionName?: string }\<close>\<close>

record ApiInfo =
  url :: string
  "method" :: string
  functionName :: "string option"

text \<open>
  An exception is a value. \<open>ReadError\<close> is what \<^verbatim>\<open>fs.readFileSync\<close> raises (the path is
  missing or cannot be read), \<open>DetectError\<close> what a per-file detection raises (a
  \<^verbatim>\<open>new RegExp\<close> built from an imported name can raise a SyntaxError), \<open>SyntaxError\<close> what
  \<^verbatim>\<open>new RegExp\<close> raises for the pattern of the views directory, \<open>TypeError\<close> what a read
  through \<^verbatim>\<open>undefined\<close> or a call of something that is no function raises.
\<close>

datatype error = ReadError | DetectError | SyntaxError | TypeError

section \<open>Regular expressions\<close>

text \<open>
  The source finds everything by regular expressions, so the model has a matcher with
  the semantics of a backtracking engine: \<open>run r (cap, s)\<close> lists, in the order the
  engine tries them, the ways \<open>r\<close> can match a prefix of \<open>s\<close>, each as the text left over
  and the value of capture group 1. A greedy star tries one more iteration before it
  tries to stop, a lazy star the other way round; an iteration that consumes nothing is
  not repeated. No pattern of the source has more than one group that is read.
\<close>

datatype re =
    Eps
  | Lit char
  | Cls "char \<Rightarrow> bool"
  | Seq re re
  | Alt re re
  | Star re
  | LazyStar re
  | Group re

type_synonym mstate = "string option \<times> string"

function run :: "re \<Rightarrow> mstate \<Rightarrow> mstate list" where
  "run Eps (cap, s) = [(cap, s)]"
| "run (Lit c) (cap, s) = (case s of [] \<Rightarrow> [] | x # xs \<Rightarrow> if x = c then [(cap, xs)] else [])"
| "run (Cls P) (cap, s) = (case s of [] \<Rightarrow> [] | x # xs \<Rightarrow> if P x then [(cap, xs)] else [])"
| "run (Seq a b) (cap, s) = concat (map (run b) (run a (cap, s)))"
| "run (Alt a b) (cap, s) = run a (cap, s) @ run b (cap, s)"
| "run (Star a) (cap, s) =
     concat (map (\<lambda>(cap', s'). if length s' < length s then run (Star a) (cap', s') else [])
                 (run a (cap, s))) @ [(cap, s)]"
| "run (LazyStar a) (cap, s) =
     (cap, s) #
     concat (map (\<lambda>(cap', s'). if length s' < length s then run (LazyStar a) (cap', s') else [])
                 (run a (cap, s)))"
| "run (Group a) (cap, s) =
     map (\<lambda>(cap', s'). (Some (take (length s - length s') s), s')) (run a (cap, s))"
  by pat_completeness auto
termination
  by (relation "inv_image (less_than <*lex*> less_than) (\<lambda>(r, cap, s). (size r, length s))")
     auto

text \<open>
  One attempt at one position: the first way the engine finds, as the matched text,
  group 1 and the text after the match.
\<close>

definition match_here :: "re \<Rightarrow> string \<Rightarrow> (string \<times> string option \<times> string) option" where
  "match_here r s =
     (case run r (None, s) of
        [] \<Rightarrow> None
      | (cap, rest) # _ \<Rightarrow> Some (take (length s - length rest) s, cap, rest))"

text \<open>\<^verbatim>\<open>str.match(re)\<close> without the \<^verbatim>\<open>g\<close> flag: the leftmost match and its group 1.\<close>

fun exec :: "re \<Rightarrow> string \<Rightarrow> (string \<times> string option) option" where
  "exec r [] = (case match_here r [] of None \<Rightarrow> None | Some (m, cap, rest) \<Rightarrow> Some (m, cap))"
| "exec r (c # cs) =
     (case match_here r (c # cs) of
        None \<Rightarrow> exec r cs
      | Some (m, cap, rest) \<Rightarrow> Some (m, cap))"

text \<open>
  \<^verbatim>\<open>str.match(re) || []\<close> with the \<^verbatim>\<open>g\<close> flag: the matched texts from left to right, each
  search starting where the last match ended (one character further after an empty
  match).
\<close>

function match_all :: "re \<Rightarrow> string \<Rightarrow> string list" where
  "match_all r s =
     (case match_here r s of
        None \<Rightarrow> (case s of [] \<Rightarrow> [] | c # cs \<Rightarrow> match_all r cs)
      | Some (m, cap, rest) \<Rightarrow>
          if m = [] then m # (case s of [] \<Rightarrow> [] | c # cs \<Rightarrow> match_all r cs)
          else m # match_all r (drop (length m) s))"
  by pat_completeness auto
termination
  by (relation "measure (\<lambda>(r, s). length s)") (auto simp: match_here_def split: list.splits)

text \<open>\<^verbatim>\<open>str.replace(re, rep)\<close> with the \<^verbatim>\<open>g\<close> flag, for a replacement without \<^verbatim>\<open>$\<close>.\<close>

function replace_all :: "re \<Rightarrow> string \<Rightarrow> string \<Rightarrow> string" where
  "replace_all r rep s =
     (case match_here r s of
        None \<Rightarrow> (case s of [] \<Rightarrow> [] | c # cs \<Rightarrow> c # replace_all r rep cs)
      | Some (m, cap, rest) \<Rightarrow>
          if m = [] then rep @ (case s of [] \<Rightarrow> [] | c # cs \<Rightarrow> c # replace_all r rep cs)
          else rep @ replace_all r rep (drop (length m) s))"
  by pat_completeness auto
termination
  by (relation "measure (\<lambda>(r, rep, s). length s)") (auto simp: match_here_def split: list.splits)

subsection \<open>Writing patterns\<close>

definition seqs :: "re list \<Rightarrow> re" where
  "seqs rs = foldr Seq rs Eps"

definition str :: "string \<Rightarrow> re" where
  "str s = seqs (map Lit s)"

definition Plus :: "re \<Rightarrow> re" where
  "Plus r = Seq r (Star r)"

text \<open>
  The character classes: \<^verbatim>\<open>\s\<close> (the white space below U+0100), \<^verbatim>\<open>\w\<close>, \<^verbatim>\<open>[\s\S]\<close> and
  \<^verbatim>\<open>.\<close> (no line terminator). \<open>CHR 0x22\<close> is the double quote, \<open>CHR 0x27\<close> the single
  quote, \<open>CHR 0x60\<close> the backtick and \<open>CHR 0x5C\<close> the backslash.
\<close>

definition isSpace :: "char \<Rightarrow> bool" where
  "isSpace c = (c \<in> set [CHR 0x09, CHR 0x0A, CHR 0x0B, CHR 0x0C, CHR 0x0D, CHR 0x20, CHR 0xA0])"

definition isWord :: "char \<Rightarrow> bool" where
  "isWord c =
     (c \<in> set ''ABCDEFGHIJKLMNOPQRSTUVWXYZabcdefghijklmnopqrstuvwxyz0123456789_'')"

definition isAny :: "char \<Rightarrow> bool" where
  "isAny c = True"

definition isDot :: "char \<Rightarrow> bool" where
  "isDot c = (c \<notin> set [CHR 0x0A, CHR 0x0D])"

definition isQuote2 :: "char \<Rightarrow> bool" where
  "isQuote2 c = (c \<in> set [CHR 0x22, CHR 0x27])"

definition isQuote3 :: "char \<Rightarrow> bool" where
  "isQuote3 c = (c \<in> set [CHR 0x27, CHR 0x22, CHR 0x60])"

definition isSep :: "char \<Rightarrow> bool" where
  "isSep c = (c \<in> set [CHR ''/'', CHR 0x5C])"

text \<open>
  \<^verbatim>\<open>String.prototype.toUpperCase\<close> on the code units below U+0100: the letters a to z and
  U+00E0 to U+00FE without the division sign U+00F7 go 32 places down, U+00DF (sharp s)
  becomes \<^verbatim>\<open>SS\<close>, and every other code unit stays. Two code units have their upper case
  above U+00FF, where the model has no code unit: U+00B5 (upper case U+039C) and U+00FF
  (upper case U+0178). They are left as they are, so a text with one of the two in a
  method literal is outside the model.
\<close>

definition lowerCase :: string where
  "lowerCase =
     ''abcdefghijklmnopqrstuvwxyz'' @
       [CHR 0xE0, CHR 0xE1, CHR 0xE2,
        CHR 0xE3, CHR 0xE4, CHR 0xE5, CHR 0xE6, CHR 0xE7, CHR 0xE8, CHR 0xE9,
        CHR 0xEA, CHR 0xEB, CHR 0xEC, CHR 0xED, CHR 0xEE, CHR 0xEF, CHR 0xF0,
        CHR 0xF1, CHR 0xF2, CHR 0xF3, CHR 0xF4, CHR 0xF5, CHR 0xF6, CHR 0xF8,
        CHR 0xF9, CHR 0xFA, CHR 0xFB, CHR 0xFC, CHR 0xFD, CHR 0xFE]"

definition upperCase :: string where
  "upperCase =
     ''ABCDEFGHIJKLMNOPQRSTUVWXYZ'' @
       [CHR 0xC0, CHR 0xC1, CHR 0xC2,
        CHR 0xC3, CHR 0xC4, CHR 0xC5, CHR 0xC6, CHR 0xC7, CHR 0xC8, CHR 0xC9,
        CHR 0xCA, CHR 0xCB, CHR 0xCC, CHR 0xCD, CHR 0xCE, CHR 0xCF, CHR 0xD0,
        CHR 0xD1, CHR 0xD2, CHR 0xD3, CHR 0xD4, CHR 0xD5, CHR 0xD6, CHR 0xD8,
        CHR 0xD9, CHR 0xDA, CHR 0xDB, CHR 0xDC, CHR 0xDD, CHR 0xDE]"

definition toUpperCase :: "string \<Rightarrow> string" where
  "toUpperCase s =
     concat (map (\<lambda>c. if c = CHR 0xDF then ''SS''
                       else case map_of (zip lowerCase upperCase) c of
                              None \<Rightarrow> [c]
                            | Some u \<Rightarrow> [u]) s)"

section \<open>The catalogue of API definitions\<close>

text \<open>
  The patterns of \<^verbatim>\<open>analyzeApiFile\<close>, in the order of the source:
  \<^verbatim>\<open>/export\s+const\s+(\w+)\s*=[\s\S]*?request\s*\(\s*\{[\s\S]*?\}\s*\)/g\<close>,
  \<^verbatim>\<open>/export\s+const\s+(\w+)\s*=/\<close>,
  \<^verbatim>\<open>/request\s*\(\s*\{([\s\S]*?)\}\s*\)/\<close>,
  \<^verbatim>\<open>/url:\s*['"`]([^'"`]+)['"`]/\<close>,
  \<^verbatim>\<open>/method:\s*['"`]([^'"`]+)['"`]/\<close>,
  \<^verbatim>\<open>/\s*\+\s*\w+/g\<close>,
  \<^verbatim>\<open>/export\s+function\s+(\w+)\s*\([^)]*\)[\s\S]*?request\s*\(\s*\{[\s\S]*?\}\s*\)/g\<close> and
  \<^verbatim>\<open>/export\s+function\s+(\w+)\s*\(/\<close>.
\<close>

definition requestTail :: "re list" where
  "requestTail =
     [LazyStar (Cls isAny), str ''request'', Star (Cls isSpace), Lit CHR ''('',
      Star (Cls isSpace), Lit CHR ''{'', LazyStar (Cls isAny), Lit CHR ''}'',
      Star (Cls isSpace), Lit CHR '')'']"

definition exportConstRe :: re where
  "exportConstRe =
     seqs ([str ''export'', Plus (Cls isSpace), str ''const'', Plus (Cls isSpace),
            Group (Plus (Cls isWord)), Star (Cls isSpace), Lit CHR ''=''] @ requestTail)"

definition constNameRe :: re where
  "constNameRe =
     seqs [str ''export'', Plus (Cls isSpace), str ''const'', Plus (Cls isSpace),
           Group (Plus (Cls isWord)), Star (Cls isSpace), Lit CHR ''='']"

definition requestRe :: re where
  "requestRe =
     seqs [str ''request'', Star (Cls isSpace), Lit CHR ''('', Star (Cls isSpace),
           Lit CHR ''{'', Group (LazyStar (Cls isAny)), Lit CHR ''}'', Star (Cls isSpace),
           Lit CHR '')'']"

definition urlFieldRe :: re where
  "urlFieldRe =
     seqs [str ''url:'', Star (Cls isSpace), Cls isQuote3,
           Group (Plus (Cls (\<lambda>c. \<not> isQuote3 c))), Cls isQuote3]"

definition methodFieldRe :: re where
  "methodFieldRe =
     seqs [str ''method:'', Star (Cls isSpace), Cls isQuote3,
           Group (Plus (Cls (\<lambda>c. \<not> isQuote3 c))), Cls isQuote3]"

definition dynamicPartRe :: re where
  "dynamicPartRe =
     seqs [Star (Cls isSpace), Lit CHR ''+'', Star (Cls isSpace), Plus (Cls isWord)]"

definition exportFunctionRe :: re where
  "exportFunctionRe =
     seqs ([str ''export'', Plus (Cls isSpace), str ''function'', Plus (Cls isSpace),
            Group (Plus (Cls isWord)), Star (Cls isSpace), Lit CHR ''('',
            Star (Cls (\<lambda>c. c \<noteq> CHR '')'')), Lit CHR '')''] @ requestTail)"

definition functionNameRe :: re where
  "functionNameRe =
     seqs [str ''export'', Plus (Cls isSpace), str ''function'', Plus (Cls isSpace),
           Group (Plus (Cls isWord)), Star (Cls isSpace), Lit CHR ''('']"

text \<open>
  The body of the two \<^verbatim>\<open>forEach\<close> callbacks of \<^verbatim>\<open>analyzeApiFile\<close>, which differ only in
  the pattern that reads the name: what one matched declaration pushes, if anything.
\<close>

definition apiOfMatch :: "re \<Rightarrow> string \<Rightarrow> ApiInfo option" where
  "apiOfMatch nameRe matched =
     (case (exec nameRe matched, exec requestRe matched) of
        (Some (m1, Some functionName'), Some (m2, Some requestBody)) \<Rightarrow>
          (case exec urlFieldRe requestBody of
             Some (m3, Some url') \<Rightarrow>
               Some \<lparr>url = replace_all dynamicPartRe ''/{id}'' url',
                     method = (case exec methodFieldRe requestBody of
                                 Some (m4, Some method') \<Rightarrow> toUpperCase method'
                               | _ \<Rightarrow> ''GET''),
                     functionName = Some functionName'\<rparr>
           | _ \<Rightarrow> None)
      | _ \<Rightarrow> None)"

text \<open>
  \<^verbatim>\<open>analyzeApiFile\<close> on what \<^verbatim>\<open>fs.readFileSync\<close> gave: the \<^verbatim>\<open>catch\<close> block returns the
  empty list.
\<close>

definition analyzeApiFile :: "error + string \<Rightarrow> ApiInfo list" where
  "analyzeApiFile content =
     (case content of
        Inl err \<Rightarrow> []
      | Inr code \<Rightarrow>
          List.map_filter (apiOfMatch constNameRe) (match_all exportConstRe code) @
          List.map_filter (apiOfMatch functionNameRe) (match_all exportFunctionRe code))"

fun findApiByFunctionName :: "ApiInfo list \<Rightarrow> string \<Rightarrow> ApiInfo option" where
  "findApiByFunctionName [] name = None"
| "findApiByFunctionName (api # apis) name =
     (if functionName api = Some name then Some api else findApiByFunctionName apis name)"

section \<open>The direct descriptors of one file\<close>

text \<open>
  \<^verbatim>\<open>extractDirectApisWithConfig\<close>. Its first detection matches
  \<^verbatim>\<open>/url:\s*["'](\/[^"']+)["']/g\<close> and strips each match with
  \<^verbatim>\<open>match.replace(/url:\s*["']|["']/g, "")\<close>. The second and third detections look the
  imported and called names up in the catalogue; they build a pattern from each name with
  \<^verbatim>\<open>new RegExp\<close>, which the model does not parse, so they are the parameter
  \<open>importedApis\<close>: the descriptors they push for this text, or the exception they raise.
\<close>

definition urlLiteralRe :: re where
  "urlLiteralRe =
     seqs [str ''url:'', Star (Cls isSpace), Cls isQuote2,
           Group (Seq (Lit CHR ''/'') (Plus (Cls (\<lambda>c. \<not> isQuote2 c)))), Cls isQuote2]"

definition urlKeyRe :: re where
  "urlKeyRe = seqs [str ''url:'', Star (Cls isSpace), Cls isQuote2]"

definition stripRe :: re where
  "stripRe = Alt urlKeyRe (Cls isQuote2)"

definition urlLiteralApis :: "string \<Rightarrow> ApiInfo list" where
  "urlLiteralApis code =
     map (\<lambda>matched. \<lparr>url = replace_all stripRe [] matched, method = ''UNKNOWN'',
                      functionName = None\<rparr>)
         (match_all urlLiteralRe code)"

definition extractDirectApisWithConfig ::
    "(string \<Rightarrow> path \<Rightarrow> error + ApiInfo list) \<Rightarrow> string \<Rightarrow> path \<Rightarrow> error + ApiInfo list" where
  "extractDirectApisWithConfig importedApis code filePath =
     (case importedApis code filePath of
        Inl err \<Rightarrow> Inl err
      | Inr imported \<Rightarrow> Inr (urlLiteralApis code @ imported))"

section \<open>State and environment of a pass\<close>

text \<open>
  The environment of one pass, fixed while the walker runs:
  \<^item> \<open>disk\<close>: the files that exist, each with what \<^verbatim>\<open>fs.readFileSync(path, 'utf-8')\<close>
    gives for it (its text, or the exception). \<^verbatim>\<open>fs.existsSync(p)\<close> is
    \<open>map_of disk p \<noteq> None\<close>.
  \<^item> \<open>directApis code filePath\<close>: what \<^verbatim>\<open>extractDirectApisWithConfig(code, filePath,
    viteConfig, config)\<close> returns or raises, with the configuration and the catalogue
    \<^verbatim>\<open>apiDefinitions\<close> of the pass fixed.
  \<^item> \<open>componentImports code filePath\<close>: what \<^verbatim>\<open>findComponentImports(code, filePath,
    config)\<close> returns (it has no raising path: it matches, resolves and tests existence).
  \<^item> \<open>patternMatch viewsDir filePath\<close>: for a views directory whose name holds a syntax
    character of regular expressions, what
    \<^verbatim>\<open>filePath.match(new RegExp(`[/\\]${viewsDir.replace('/', '[/\\]')}[/\\](.+)`))\<close> gives:
    the exception (the \<^verbatim>\<open>SyntaxError\<close> of \<^verbatim>\<open>new RegExp\<close>, or the \<^verbatim>\<open>TypeError\<close> of
    \<^verbatim>\<open>viewsMatch[1].replace\<close> when group 1 took no part in the match), no match, or the text
    of group 1. The model does not parse such a name; for a name without a syntax
    character the pattern is built below.
\<close>

record env =
  disk :: "(path \<times> (error + string)) list"
  directApis :: "string \<Rightarrow> path \<Rightarrow> error + ApiInfo list"
  componentImports :: "string \<Rightarrow> path \<Rightarrow> path list"
  patternMatch :: "string \<Rightarrow> path \<Rightarrow> error + string option"

text \<open>
  The state. \<open>componentCache\<close> is the \<^verbatim>\<open>Map\<close> of memoized results and \<open>processingStack\<close>
  the \<^verbatim>\<open>Set\<close> of paths being processed. \<open>viewApiData\<close> holds the own properties of the
  object \<^verbatim>\<open>{ category: { page: Set<string> } }\<close>, and for each category the own properties
  of its object, as association lists in the order \<^verbatim>\<open>Object.keys\<close> lists them; a \<^verbatim>\<open>Set\<close> is
  the list of its members in insertion order. The members of a \<^verbatim>\<open>Set\<close> are the texts
  \<^verbatim>\<open>JSON.stringify(api)\<close>; the model keeps the \<open>ApiInfo\<close> each text was made from, since
  \<^verbatim>\<open>JSON.stringify\<close> is injective on them and \<^verbatim>\<open>JSON.parse\<close> gives the same fields back.

  Both kinds of object are made by \<^verbatim>\<open>{}\<close> and inherit from \<^verbatim>\<open>Object.prototype\<close>, so a read
  \<^verbatim>\<open>obj[key]\<close> that finds no own property is answered by \<^verbatim>\<open>Object.prototype\<close>, and the plugin
  can store a \<^verbatim>\<open>Set\<close> on \<^verbatim>\<open>Object.prototype\<close> itself (through the category \<^verbatim>\<open>__proto__\<close>).
  \<open>objectPrototype\<close> is the set of the names under which it has done so. The members of
  such a \<^verbatim>\<open>Set\<close> are not kept: nothing reads them, \<^verbatim>\<open>generateApiFile\<close> looks at own
  properties only.

  \<open>reads\<close> is instrumentation: the paths handed to \<^verbatim>\<open>fs.readFileSync\<close> by the walker, in
  order.
\<close>

record state =
  viewApiData :: "(string \<times> (string \<times> ApiInfo list) list) list"
  componentCache :: "path \<rightharpoonup> ApiInfo list"
  processingStack :: "path set"
  reads :: "path list"
  objectPrototype :: "string set"

text \<open>
  The state after \<^verbatim>\<open>buildStart\<close> has cleared the four variables, in a process in which
  nothing has been added to \<^verbatim>\<open>Object.prototype\<close>.
\<close>

definition fresh :: state where
  "fresh = \<lparr>viewApiData = [], componentCache = Map.empty, processingStack = {}, reads = [],
            objectPrototype = {}\<rparr>"

section \<open>The recursive walk\<close>

text \<open>
  \<^verbatim>\<open>extractApisFromComponentWithConfig(filePath, visited, viteConfig, config)\<close>. The
  \<^verbatim>\<open>for\<close> loop over the imports is \<open>walkImports\<close>; it hands every child a copy of
  \<open>visited\<close> (\<^verbatim>\<open>new Set(visited)\<close>), so what a child adds never comes back. The early
  \<^verbatim>\<open>return []\<close> for a missing file leaves through neither \<^verbatim>\<open>processingStack.delete\<close>;
  the \<^verbatim>\<open>catch\<close> block deletes and stores nothing.
\<close>

function extractApisFromComponentWithConfig ::
    "env \<Rightarrow> path \<Rightarrow> path set \<Rightarrow> state \<Rightarrow> ApiInfo list \<times> state"
  and walkImports ::
    "env \<Rightarrow> path list \<Rightarrow> path set \<Rightarrow> ApiInfo list \<Rightarrow> state \<Rightarrow> ApiInfo list \<times> state"
where
  "extractApisFromComponentWithConfig E filePath visited st =
     (if filePath \<in> visited \<or> filePath \<in> processingStack st then ([], st)
      else case componentCache st filePath of
        Some cached \<Rightarrow> (cached, st)
      | None \<Rightarrow>
         (let st1 = st\<lparr>processingStack := insert filePath (processingStack st)\<rparr>;
              visited1 = insert filePath visited;
              caught = (\<lambda>s. ([], s\<lparr>processingStack := processingStack s - {filePath}\<rparr>))
          in case map_of (disk E) filePath of
            None \<Rightarrow> ([], st1)
          | Some content \<Rightarrow>
             (let st2 = st1\<lparr>reads := reads st1 @ [filePath]\<rparr>
              in case content of
                Inl err \<Rightarrow> caught st2
              | Inr code \<Rightarrow>
                 (case directApis E code filePath of
                    Inl err \<Rightarrow> caught st2
                  | Inr direct \<Rightarrow>
                     (case walkImports E (componentImports E code filePath) visited1 direct st2 of
                        (apis, st3) \<Rightarrow>
                          (apis, st3\<lparr>componentCache := (componentCache st3)(filePath \<mapsto> apis),
                                     processingStack := processingStack st3 - {filePath}\<rparr>))))))"
| "walkImports E [] visited apis st = (apis, st)"
| "walkImports E (componentPath # rest) visited apis st =
     (case extractApisFromComponentWithConfig E componentPath visited st of
        (childApis, st') \<Rightarrow> walkImports E rest visited (apis @ childApis) st')"
  by pat_completeness auto
termination
  by (relation "inv_image (less_than <*lex*> less_than)
        (\<lambda>x. case x of
           Inl (E, p, v, st) \<Rightarrow> (card (fst ` set (disk E) - v), 0)
         | Inr (E, cs, v, a, st) \<Rightarrow> (card (fst ` set (disk E) - v), Suc (length cs)))")
     (auto intro!: psubset_card_mono dest!: map_of_SomeD, force)


section \<open>One page file\<close>

text \<open>
  \<^verbatim>\<open>processFileWithConfig\<close> first matches the path against
  \<^verbatim>\<open>new RegExp(`[/\\]${viewsDir.replace('/', '[/\\]') || 'views'}[/\\](.+)`)\<close>: the first
  \<^verbatim>\<open>/\<close> of the configured directory stands for either separator, and an empty name stands
  for \<^verbatim>\<open>views\<close>. The name is pasted into the source of the pattern. A character that is no
  syntax character of patterns (\<^verbatim>\<open>^ $ \ . * + ? ( ) [ ] { } |\<close>) matches itself, and for a
  name of such characters \<open>viewsPattern\<close> gives the pattern. For any other name it gives
  none, and the match is read from the environment.
\<close>

definition isSyntaxCharacter :: "char \<Rightarrow> bool" where
  "isSyntaxCharacter c = (c \<in> set (''^$.*+?()[]{}|'' @ [CHR 0x5C]))"

fun viewsDirRe :: "string \<Rightarrow> re list" where
  "viewsDirRe [] = []"
| "viewsDirRe (c # cs) = (if c = CHR ''/'' then Cls isSep # map Lit cs else Lit c # viewsDirRe cs)"

definition viewsPattern :: "string \<Rightarrow> re option" where
  "viewsPattern viewsDir =
     (if \<exists>c \<in> set viewsDir. isSyntaxCharacter c then None
      else Some (seqs ([Cls isSep] @
                       (if viewsDir = [] then map Lit ''views'' else viewsDirRe viewsDir) @
                       [Cls isSep, Group (Plus (Cls isDot))])))"

text \<open>
  \<^verbatim>\<open>filePath.match(viewsPattern)\<close> and the read of group 1: the exception, no match
  (\<^verbatim>\<open>if (!viewsMatch) return\<close>), or the text of group 1.
\<close>

definition viewsMatch :: "string \<Rightarrow> env \<Rightarrow> path \<Rightarrow> error + string option" where
  "viewsMatch viewsDir E filePath =
     (case viewsPattern viewsDir of
        None \<Rightarrow> patternMatch E viewsDir filePath
      | Some pattern \<Rightarrow>
          (case exec pattern filePath of
             Some (matched, Some below) \<Rightarrow> Inr (Some below)
           | _ \<Rightarrow> Inr None))"

text \<open>\<^verbatim>\<open>str.split(sep)\<close> for a separator of one character.\<close>

fun split :: "char \<Rightarrow> string \<Rightarrow> string list" where
  "split sep [] = [[]]"
| "split sep (c # cs) =
     (if c = sep then [] # split sep cs
      else case split sep cs of [] \<Rightarrow> [[c]] | part # parts \<Rightarrow> (c # part) # parts)"

text \<open>\<^verbatim>\<open>fileName.replace(/\.vue$/, '')\<close>\<close>

definition stripVue :: "string \<Rightarrow> string" where
  "stripVue fileName =
     (if 4 \<le> length fileName \<and> drop (length fileName - 4) fileName = ''.vue''
      then take (length fileName - 4) fileName else fileName)"

text \<open>
  The category and the page of a path below the views directory (\<^verbatim>\<open>fullPath\<close>, with
  \<^verbatim>\<open>/\<close> as the separator): \<^verbatim>\<open>viewCategory\<close> and \<^verbatim>\<open>pagePath\<close>.
\<close>

definition categoryAndPage :: "string \<Rightarrow> string \<times> string" where
  "categoryAndPage fullPath =
     (let pathParts = split CHR ''/'' fullPath in
      if length pathParts = 1 then
        (let fileName = pathParts ! 0 in
         if fileName = ''index.vue'' \<or> fileName = ''defaultIndex.vue'' then (''/'', ''/'')
         else (stripVue fileName, ''/''))
      else
        (pathParts ! 0,
         if length pathParts = 2 then pathParts ! 0
         else pathParts ! 0 @ ''/'' @ pathParts ! 1))"

subsection \<open>Objects\<close>

text \<open>
  The own property names of \<^verbatim>\<open>Object.prototype\<close>. Under \<^verbatim>\<open>constructor\<close> it holds the function
  \<^verbatim>\<open>Object\<close>, under \<^verbatim>\<open>__proto__\<close> an accessor (its getter gives the prototype of the object
  that is read, its setter raises a \<^verbatim>\<open>TypeError\<close> on \<^verbatim>\<open>Object.prototype\<close>, whose prototype
  cannot be changed), and under each other name a function. \<open>inherited st key\<close> says that
  a read of \<open>key\<close> on an object made by \<^verbatim>\<open>{}\<close> that has no such own property finds
  something in state \<open>st\<close>; what it finds is an object or a function, so the read is truthy.
\<close>

definition prototypeNames :: "string list" where
  "prototypeNames =
     [''constructor'', ''__defineGetter__'', ''__defineSetter__'', ''hasOwnProperty'',
      ''__lookupGetter__'', ''__lookupSetter__'', ''isPrototypeOf'', ''propertyIsEnumerable'',
      ''toString'', ''valueOf'', ''__proto__'', ''toLocaleString'']"

definition inherited :: "state \<Rightarrow> string \<Rightarrow> bool" where
  "inherited st key = (key \<in> set prototypeNames \<or> key \<in> objectPrototype st)"

text \<open>
  The order of the own properties of an object, as \<^verbatim>\<open>Object.keys\<close> and \<^verbatim>\<open>JSON.stringify\<close>
  list them: first the names that are array indices (the decimal numerals of 0 to
  4294967294, without a leading zero), by value, then the other names in the order of
  their creation. \<open>addProperty key v obj\<close> is \<^verbatim>\<open>obj[key] = v\<close> for a name that is no own
  property of \<^verbatim>\<open>obj\<close> yet.
\<close>

definition decimal :: "string \<Rightarrow> nat" where
  "decimal key = foldl (\<lambda>n c. 10 * n + (of_char c - 48)) 0 key"

definition arrayIndex :: "string \<Rightarrow> nat option" where
  "arrayIndex key =
     (if key \<noteq> [] \<and> (\<forall>c \<in> set key. c \<in> set ''0123456789'') \<and>
         (key = ''0'' \<or> hd key \<noteq> CHR ''0'') \<and> decimal key < 2 ^ 32 - 1
      then Some (decimal key) else None)"

fun insertIndex :: "nat \<Rightarrow> string \<Rightarrow> 'v \<Rightarrow> (string \<times> 'v) list \<Rightarrow> (string \<times> 'v) list" where
  "insertIndex n key v [] = [(key, v)]"
| "insertIndex n key v ((k, w) # obj) =
     (case arrayIndex k of
        Some m \<Rightarrow> if m < n then (k, w) # insertIndex n key v obj else (key, v) # (k, w) # obj
      | None \<Rightarrow> (key, v) # (k, w) # obj)"

definition addProperty :: "string \<Rightarrow> 'v \<Rightarrow> (string \<times> 'v) list \<Rightarrow> (string \<times> 'v) list" where
  "addProperty key v obj =
     (case arrayIndex key of None \<Rightarrow> obj @ [(key, v)] | Some n \<Rightarrow> insertIndex n key v obj)"

text \<open>\<^verbatim>\<open>obj[key] = f(obj[key])\<close> for an own property: the property stays where it is.\<close>

definition modifyKey :: "string \<Rightarrow> ('v \<Rightarrow> 'v) \<Rightarrow> (string \<times> 'v) list \<Rightarrow> (string \<times> 'v) list" where
  "modifyKey key f obj = map (\<lambda>(k, v). if k = key then (k, f v) else (k, v)) obj"

text \<open>
  \<^verbatim>\<open>set.add(x)\<close> on a \<^verbatim>\<open>Set\<close>: a new member goes last, a member stays where it is; and
  \<^verbatim>\<open>allApis.forEach(api => set.add(JSON.stringify(api)))\<close>.
\<close>

definition setAdd :: "'a \<Rightarrow> 'a list \<Rightarrow> 'a list" where
  "setAdd x xs = (if x \<in> set xs then xs else xs @ [x])"

definition addAll :: "'a list \<Rightarrow> 'a list \<Rightarrow> 'a list" where
  "addAll members allApis = foldl (\<lambda>acc api. setAdd api acc) members allApis"

subsection \<open>Recording the descriptors of a page\<close>

text \<open>
  The block guarded by \<^verbatim>\<open>allApis.length > 0\<close>:

  \<^verbatim>\<open>if (!viewApiData[viewCategory]) viewApiData[viewCategory] = {};\<close>
  \<^verbatim>\<open>if (!viewApiData[viewCategory][pagePath]) viewApiData[viewCategory][pagePath] = new Set();\<close>
  \<^verbatim>\<open>allApis.forEach(api => { viewApiData[viewCategory][pagePath].add(JSON.stringify(api)); });\<close>

  The first statement creates the category when the read finds nothing, own or inherited
  (\<open>st1\<close>). What \<^verbatim>\<open>viewApiData[viewCategory]\<close> is then decides the rest.
  \<^item> An own property, the object of the category's pages. An own page gets the members.
    Without an own page, a name of \<open>prototypeNames\<close> reads as a function or as
    \<^verbatim>\<open>Object.prototype\<close>, which has no method \<^verbatim>\<open>add\<close>: the call raises a \<^verbatim>\<open>TypeError\<close>. A name
    in \<open>objectPrototype\<close> reads as the \<^verbatim>\<open>Set\<close> stored on \<^verbatim>\<open>Object.prototype\<close>, which gets the
    members. For any other name the page is created with the members.
  \<^item> \<^verbatim>\<open>Object.prototype\<close> itself, for the category \<^verbatim>\<open>__proto__\<close>. A page named as in
    \<open>prototypeNames\<close> raises a \<^verbatim>\<open>TypeError\<close> (at \<^verbatim>\<open>add\<close>, or in the setter of \<^verbatim>\<open>__proto__\<close>);
    any other page is stored on \<^verbatim>\<open>Object.prototype\<close>, or is there already.
  \<^item> A function of \<^verbatim>\<open>Object.prototype\<close>, or a \<^verbatim>\<open>Set\<close> stored on it. The members go into a
    \<^verbatim>\<open>Set\<close> stored on that function or \<^verbatim>\<open>Set\<close>, or into one on \<^verbatim>\<open>Object.prototype\<close>, or a
    \<^verbatim>\<open>TypeError\<close> is raised; neither changes an own property of \<^verbatim>\<open>viewApiData\<close> or a name
    of \<^verbatim>\<open>Object.prototype\<close>.

  A \<^verbatim>\<open>TypeError\<close> leaves through the \<^verbatim>\<open>catch\<close> block of \<^verbatim>\<open>processFileWithConfig\<close>, which
  logs it: the state is the one reached at the raise.
\<close>

definition recordApis :: "string \<Rightarrow> string \<Rightarrow> ApiInfo list \<Rightarrow> state \<Rightarrow> state" where
  "recordApis viewCategory pagePath allApis st =
     (let st1 = (if map_of (viewApiData st) viewCategory = None \<and> \<not> inherited st viewCategory
                 then st\<lparr>viewApiData := addProperty viewCategory [] (viewApiData st)\<rparr>
                 else st)
      in case map_of (viewApiData st1) viewCategory of
           Some pages \<Rightarrow>
             (case map_of pages pagePath of
                Some members \<Rightarrow>
                  st1\<lparr>viewApiData :=
                        modifyKey viewCategory
                          (modifyKey pagePath (\<lambda>members. addAll members allApis))
                          (viewApiData st1)\<rparr>
              | None \<Rightarrow>
                  if pagePath \<in> set prototypeNames then st1
                  else if pagePath \<in> objectPrototype st1 then st1
                  else st1\<lparr>viewApiData :=
                             modifyKey viewCategory (addProperty pagePath (addAll [] allApis))
                               (viewApiData st1)\<rparr>)
         | None \<Rightarrow>
             if viewCategory = ''__proto__'' then
               (if pagePath \<in> set prototypeNames then st1
                else st1\<lparr>objectPrototype := insert pagePath (objectPrototype st1)\<rparr>)
             else st1)"

text \<open>
  \<^verbatim>\<open>processFileWithConfig\<close>. Its body is one \<^verbatim>\<open>try\<close> block; an exception of the match
  returns with nothing done, and the walker catches its own exceptions.
\<close>

definition processFileWithConfig :: "string \<Rightarrow> env \<Rightarrow> path \<Rightarrow> state \<Rightarrow> state" where
  "processFileWithConfig viewsDir E filePath st =
     (case viewsMatch viewsDir E filePath of
        Inl err \<Rightarrow> st
      | Inr None \<Rightarrow> st
      | Inr (Some below) \<Rightarrow>
          (let fullPath = map (\<lambda>c. if c = CHR 0x5C then CHR ''/'' else c) below;
               (viewCategory, pagePath) = categoryAndPage fullPath;
               (allApis, st') = extractApisFromComponentWithConfig E filePath {} st
           in if allApis \<noteq> [] then recordApis viewCategory pagePath allApis st' else st'))"

section \<open>The output document\<close>

text \<open>
  \<^verbatim>\<open>generateApiFile\<close> turns every \<^verbatim>\<open>Set\<close> into an array,
  \<^verbatim>\<open>Array.from(set).map(str => JSON.parse(str)).sort((a, b) => a.url.localeCompare(b.url))\<close>.
  \<^verbatim>\<open>Array.prototype.sort\<close> is stable, so the array is the one an insertion sort gives.
  \<^verbatim>\<open>localeCompare\<close> depends on the collation of the host and is the parameter \<open>lc\<close>
  (negative, zero or positive).
\<close>

fun insertApi :: "(string \<Rightarrow> string \<Rightarrow> int) \<Rightarrow> ApiInfo \<Rightarrow> ApiInfo list \<Rightarrow> ApiInfo list" where
  "insertApi lc a [] = [a]"
| "insertApi lc a (b # bs) =
     (if lc (url a) (url b) \<le> 0 then a # b # bs else b # insertApi lc a bs)"

definition sortApis :: "(string \<Rightarrow> string \<Rightarrow> int) \<Rightarrow> ApiInfo list \<Rightarrow> ApiInfo list" where
  "sortApis lc apis = foldr (insertApi lc) apis []"

text \<open>
  \<^verbatim>\<open>outputData[viewCategory]\<close>: an array (the flat shape) or an object of arrays. In the
  flat shape the source reads \<^verbatim>\<open>pageKeys[0]\<close>; on a category without a page that is
  \<^verbatim>\<open>undefined\<close> and \<^verbatim>\<open>Array.from\<close> raises.
\<close>

datatype view = Flat "ApiInfo list" | Nested "(string \<times> ApiInfo list) list"

definition shouldFlatten :: "string \<Rightarrow> string list \<Rightarrow> bool" where
  "shouldFlatten viewCategory pageKeys =
     ((viewCategory = ''/'' \<or> (length pageKeys = 1 \<and> pageKeys ! 0 = ''/'')) \<or>
      (length pageKeys = 1 \<and> pageKeys ! 0 = viewCategory))"

definition categoryView ::
    "(string \<Rightarrow> string \<Rightarrow> int) \<Rightarrow> string \<Rightarrow> (string \<times> ApiInfo list) list \<Rightarrow> error + view" where
  "categoryView lc viewCategory pages =
     (if shouldFlatten viewCategory (map fst pages) then
        (case pages of
           [] \<Rightarrow> Inl TypeError
         | (pagePath, members) # _ \<Rightarrow> Inr (Flat (sortApis lc members)))
      else Inr (Nested (map (\<lambda>(pagePath, members). (pagePath, sortApis lc members)) pages)))"

fun outputData ::
    "(string \<Rightarrow> string \<Rightarrow> int) \<Rightarrow> (string \<times> (string \<times> ApiInfo list) list) list
      \<Rightarrow> error + (string \<times> view) list" where
  "outputData lc [] = Inr []"
| "outputData lc ((viewCategory, pages) # data) =
     (case categoryView lc viewCategory pages of
        Inl err \<Rightarrow> Inl err
      | Inr v \<Rightarrow>
         (case outputData lc data of
            Inl err \<Rightarrow> Inl err
          | Inr out \<Rightarrow> Inr ((viewCategory, v) # out)))"

text \<open>
  \<^verbatim>\<open>JSON.stringify(outputData, null, 2)\<close>, as the syntax tree of the text. An object is
  written with the properties it has: \<^verbatim>\<open>functionName\<close> is written when the descriptor
  has one.
\<close>

datatype json = JStr string | JArr "json list" | JObj "(string \<times> json) list"

definition apiJson :: "ApiInfo \<Rightarrow> json" where
  "apiJson a =
     JObj ([(''url'', JStr (url a)), (''method'', JStr (method a))] @
           (case functionName a of None \<Rightarrow> [] | Some name \<Rightarrow> [(''functionName'', JStr name)]))"

fun viewJson :: "view \<Rightarrow> json" where
  "viewJson (Flat apis) = JArr (map apiJson apis)"
| "viewJson (Nested pages) = JObj (map (\<lambda>(pagePath, apis). (pagePath, JArr (map apiJson apis))) pages)"

definition document :: "(string \<times> view) list \<Rightarrow> json" where
  "document out = JObj (map (\<lambda>(viewCategory, v). (viewCategory, viewJson v)) out)"

text \<open>\<^verbatim>\<open>generateApiFile\<close>: the document handed to \<^verbatim>\<open>writeFileSync\<close>, or the exception.\<close>

definition generateApiFile :: "(string \<Rightarrow> string \<Rightarrow> int) \<Rightarrow> state \<Rightarrow> error + json" where
  "generateApiFile lc st =
     (case outputData lc (viewApiData st) of Inl err \<Rightarrow> Inl err | Inr out \<Rightarrow> Inr (document out))"

text \<open>
  \<^verbatim>\<open>buildStart\<close>, after the catalogue is built: \<^verbatim>\<open>files.forEach(filePath =>
  processFileWithConfig(filePath, viteConfig, config))\<close> from the cleared state, then
  \<^verbatim>\<open>generateApiFile\<close>.
\<close>

definition processFiles :: "string \<Rightarrow> env \<Rightarrow> path list \<Rightarrow> state \<Rightarrow> state" where
  "processFiles viewsDir E files st = foldl (\<lambda>s filePath. processFileWithConfig viewsDir E filePath s) st files"

definition buildStart ::
    "string \<Rightarrow> env \<Rightarrow> (string \<Rightarrow> string \<Rightarrow> int) \<Rightarrow> path list \<Rightarrow> error + json" where
  "buildStart viewsDir E lc files = generateApiFile lc (processFiles viewsDir E files fresh)"

section \<open>Reading the environment\<close>

text \<open>
  What the walker gets from a file: \<open>source E p\<close> is the pair of its direct descriptors
  and its component imports when the file exists and both the read and the detection
  succeed; \<open>raises E p\<close> says that the file exists and the read or the detection raises.
\<close>

definition source :: "env \<Rightarrow> path \<Rightarrow> (ApiInfo list \<times> path list) option" where
  "source E p =
     (case map_of (disk E) p of
        Some (Inr code) \<Rightarrow>
          (case directApis E code p of
             Inr direct \<Rightarrow> Some (direct, componentImports E code p)
           | Inl err \<Rightarrow> None)
      | _ \<Rightarrow> None)"

definition raises :: "env \<Rightarrow> path \<Rightarrow> bool" where
  "raises E p =
     (case map_of (disk E) p of
        None \<Rightarrow> False
      | Some (Inl err) \<Rightarrow> True
      | Some (Inr code) \<Rightarrow> (case directApis E code p of Inl err \<Rightarrow> True | Inr direct \<Rightarrow> False))"

section \<open>Scenarios\<close>

text \<open>
  The catalogue module of the specification's scenario:
  \<^verbatim>\<open>export function getUser() { request({ url: '/user/' + id, method: 'GET' }) }\<close>
\<close>

definition getUserModule :: string where
  "getUserModule =
     ''export function getUser() { request({ url: '' @ [CHR 0x27] @ ''/user/'' @ [CHR 0x27] @
     '' + id, method: '' @ [CHR 0x27] @ ''GET'' @ [CHR 0x27] @ '' }) }''"

text \<open>
  An environment given by tables: the files with their texts, and for each file the
  component paths its imports resolve to. The direct descriptors are detected in the
  text by \<open>extractDirectApisWithConfig\<close>, with no catalogue import in any file.
  \<open>urlLine u\<close> is the text \<^verbatim>\<open>url: "u"\<close>. The scenarios run with the views directory
  \<^verbatim>\<open>src/views\<close>, which has no syntax character, so \<open>patternMatch\<close> is never consulted.
\<close>

definition tableEnv :: "(path \<times> (error + string)) list \<Rightarrow> (path \<times> path list) list \<Rightarrow> env" where
  "tableEnv files edges =
     \<lparr>disk = files,
      directApis = extractDirectApisWithConfig (\<lambda>code filePath. Inr []),
      componentImports = (\<lambda>code filePath. case map_of edges filePath of None \<Rightarrow> [] | Some cs \<Rightarrow> cs),
      patternMatch = (\<lambda>viewsDir filePath. Inl SyntaxError)\<rparr>"

definition urlLine :: "string \<Rightarrow> string" where
  "urlLine u = ''url: '' @ [CHR 0x22] @ u @ [CHR 0x22]"

text \<open>A page that exists and cannot be read.\<close>

definition brokenEnv :: env where
  "brokenEnv = tableEnv [(''/p/src/views/a.vue'', Inl ReadError)] []"

text \<open>A page with one endpoint that imports a component file that does not exist.\<close>

definition goneEnv :: env where
  "goneEnv = tableEnv [(''/p/src/views/a.vue'', Inr (urlLine ''/a''))]
                      [(''/p/src/views/a.vue'', [''/p/src/views/gone.vue''])]"

text \<open>A page with no endpoint.\<close>

definition plainEnv :: env where
  "plainEnv = tableEnv [(''/p/src/views/about.vue'', Inr ''<template>About</template>'')] []"

text \<open>
  A catalogue module with two functions for the same endpoint:
  \<^verbatim>\<open>export function getA() { request({ url: '/x' }) }
  export function getB() { request({ url: '/x' }) }\<close>
\<close>

definition twoText :: string where
  "twoText =
     ''export function getA() { request({ url: '' @ [CHR 0x27] @ ''/x'' @ [CHR 0x27] @ '' }) } '' @
     ''export function getB() { request({ url: '' @ [CHR 0x27] @ ''/x'' @ [CHR 0x27] @ '' }) }''"

text \<open>
  An environment whose files import the functions \<open>names\<close> from one catalogue module and
  call them: the second detection of \<^verbatim>\<open>extractDirectApisWithConfig\<close> pushes, for each
  name, what \<open>findApiByFunctionName\<close> finds in the module's catalogue entry.
\<close>

definition callsEnv :: "string \<Rightarrow> string list \<Rightarrow> (path \<times> (error + string)) list \<Rightarrow> env" where
  "callsEnv moduleText names files =
     \<lparr>disk = files,
      directApis = extractDirectApisWithConfig
        (\<lambda>code filePath.
           Inr (List.map_filter (findApiByFunctionName (analyzeApiFile (Inr moduleText))) names)),
      componentImports = (\<lambda>code filePath. []),
      patternMatch = (\<lambda>viewsDir filePath. Inl SyntaxError)\<rparr>"

definition userPage :: path where
  "userPage = ''/p/src/views/user/index.vue''"

definition partPath :: path where
  "partPath = ''/p/src/views/user/part.vue''"

text \<open>A page that calls \<^verbatim>\<open>getUser\<close> of the scenario's module.\<close>

definition catalogEnv :: env where
  "catalogEnv = callsEnv getUserModule [''getUser''] [(userPage, Inr ''getUser()'')]"

text \<open>A page that names the url \<^verbatim>\<open>/user/\<close> in its own text and calls \<^verbatim>\<open>getUser\<close>.\<close>

definition mixedEnv :: env where
  "mixedEnv =
     callsEnv getUserModule [''getUser''] [(userPage, Inr (urlLine ''/user/'' @ ''; getUser()''))]"

text \<open>A page that calls \<^verbatim>\<open>getA\<close> and \<^verbatim>\<open>getB\<close>.\<close>

definition twoEnv :: env where
  "twoEnv = callsEnv twoText [''getA'', ''getB''] [(userPage, Inr ''getA(); getB()'')]"

text \<open>A page with two urls, the larger first.\<close>

definition unsortedEnv :: env where
  "unsortedEnv = tableEnv [(userPage, Inr (urlLine ''/b'' @ ''; '' @ urlLine ''/a''))] []"

text \<open>A page and a component it imports, both with the url \<^verbatim>\<open>/x\<close>.\<close>

definition dupEnv :: env where
  "dupEnv = tableEnv [(userPage, Inr (urlLine ''/x'')), (partPath, Inr (urlLine ''/x''))]
                     [(userPage, [partPath])]"

text \<open>
  Two pages that import each other, each with one endpoint; two pages that import the
  same component; and the same with a component that cannot be read.
\<close>

definition goodsPage :: path where
  "goodsPage = ''/p/src/views/goods/index.vue''"

definition orderPage :: path where
  "orderPage = ''/p/src/views/order/index.vue''"

definition pricePart :: path where
  "pricePart = ''/p/src/components/Price.vue''"

definition cycleEnv :: env where
  "cycleEnv = tableEnv [(orderPage, Inr (urlLine ''/order'')), (goodsPage, Inr (urlLine ''/goods''))]
                       [(orderPage, [goodsPage]), (goodsPage, [orderPage])]"

definition sharedEnv :: env where
  "sharedEnv = tableEnv [(goodsPage, Inr (urlLine ''/goods'')), (orderPage, Inr (urlLine ''/order'')),
                         (pricePart, Inr (urlLine ''/price''))]
                        [(goodsPage, [pricePart]), (orderPage, [pricePart])]"

definition brokenSharedEnv :: env where
  "brokenSharedEnv = tableEnv [(goodsPage, Inr (urlLine ''/goods'')), (orderPage, Inr (urlLine ''/order'')),
                         (pricePart, Inl ReadError)]
                        [(goodsPage, [pricePart]), (orderPage, [pricePart])]"

text \<open>
  A page in a directory named \<^verbatim>\<open>constructor\<close>; a page \<^verbatim>\<open>__proto__.vue\<close> and a page
  \<^verbatim>\<open>about.vue\<close>, both directly in the views directory; and three pages in the directories
  \<^verbatim>\<open>b\<close>, \<^verbatim>\<open>10\<close> and \<^verbatim>\<open>9\<close>.
\<close>

definition constructorPage :: path where
  "constructorPage = ''/p/src/views/constructor/index.vue''"

definition constructorEnv :: env where
  "constructorEnv = tableEnv [(constructorPage, Inr (urlLine ''/c''))] []"

definition protoEnv :: env where
  "protoEnv = tableEnv [(''/p/src/views/__proto__.vue'', Inr (urlLine ''/hidden'')),
                        (''/p/src/views/about.vue'', Inr (urlLine ''/about''))] []"

definition numbersEnv :: env where
  "numbersEnv = tableEnv [(''/p/src/views/b/index.vue'', Inr (urlLine ''/b'')),
                          (''/p/src/views/10/index.vue'', Inr (urlLine ''/ten'')),
                          (''/p/src/views/9/index.vue'', Inr (urlLine ''/nine''))] []"

section \<open>Reading the output\<close>

text \<open>
  A comparison of strings by code units, as one possible \<^verbatim>\<open>localeCompare\<close>, and what the
  sort needs of any \<^verbatim>\<open>localeCompare\<close>: of two strings one is not after the other, and
  "not after" is transitive.
\<close>

definition codeUnitCompare :: "string \<Rightarrow> string \<Rightarrow> int" where
  "codeUnitCompare a b = (if a < b then - 1 else if a = b then 0 else 1)"

definition consistent :: "(string \<Rightarrow> string \<Rightarrow> int) \<Rightarrow> bool" where
  "consistent lc =
     ((\<forall>a b. lc a b \<le> 0 \<or> lc b a \<le> 0) \<and>
      (\<forall>a b c. lc a b \<le> 0 \<longrightarrow> lc b c \<le> 0 \<longrightarrow> lc a c \<le> 0))"

text \<open>
  The arrays of \<^verbatim>\<open>outputData\<close>, the member lists of \<^verbatim>\<open>viewApiData\<close>, and the order the
  specification states: by url, and by method among equal urls.
\<close>

definition arrays :: "(string \<times> view) list \<Rightarrow> ApiInfo list list" where
  "arrays out =
     concat (map (\<lambda>(viewCategory, v). case v of Flat apis \<Rightarrow> [apis] | Nested pages \<Rightarrow> map snd pages) out)"

definition memberLists :: "(string \<times> (string \<times> ApiInfo list) list) list \<Rightarrow> ApiInfo list list" where
  "memberLists data = concat (map (\<lambda>(viewCategory, pages). map snd pages) data)"

definition byUrlThenMethod :: "ApiInfo \<Rightarrow> ApiInfo \<Rightarrow> bool" where
  "byUrlThenMethod a b = (url a < url b \<or> (url a = url b \<and> method a \<le> method b))"

text \<open>
  The category and page \<^verbatim>\<open>processFileWithConfig\<close> derives for a path (none when the path
  is not below the views directory), the members recorded for a page, and the property
  that no recorded \<^verbatim>\<open>Set\<close> lists a member twice.
\<close>

definition entryPage :: "string \<Rightarrow> env \<Rightarrow> path \<Rightarrow> (string \<times> string) option" where
  "entryPage viewsDir E filePath =
     (case viewsMatch viewsDir E filePath of
        Inr (Some below) \<Rightarrow>
          Some (categoryAndPage (map (\<lambda>c. if c = CHR 0x5C then CHR ''/'' else c) below))
      | _ \<Rightarrow> None)"

definition pageMembers ::
    "(string \<times> (string \<times> ApiInfo list) list) list \<Rightarrow> string \<Rightarrow> string \<Rightarrow> ApiInfo list" where
  "pageMembers data viewCategory pagePath =
     (case map_of data viewCategory of
        None \<Rightarrow> []
      | Some pages \<Rightarrow> (case map_of pages pagePath of None \<Rightarrow> [] | Some members \<Rightarrow> members))"

definition duplicateFree :: "(string \<times> (string \<times> ApiInfo list) list) list \<Rightarrow> bool" where
  "duplicateFree data = (\<forall>members \<in> set (memberLists data). distinct members)"

text \<open>
  What holds of \<open>viewApiData\<close> in every state of a pass: no category is listed twice, and
  the category \<^verbatim>\<open>/\<close> has the page \<^verbatim>\<open>/\<close> and no other.
\<close>

definition wellKeyed :: "(string \<times> (string \<times> ApiInfo list) list) list \<Rightarrow> bool" where
  "wellKeyed data =
     (distinct (map fst data) \<and> (\<forall>(viewCategory, pages) \<in> set data. viewCategory = ''/'' \<longrightarrow> map fst pages = [''/'']))"

text \<open>
  The array the output has for a page: the array under the category when the category is
  written flat, the array under the page in the object under the category otherwise.
\<close>

definition outputArray :: "(string \<times> view) list \<Rightarrow> string \<Rightarrow> string \<Rightarrow> ApiInfo list option" where
  "outputArray out viewCategory pagePath =
     (case map_of out viewCategory of
        None \<Rightarrow> None
      | Some (Flat apis) \<Rightarrow> Some apis
      | Some (Nested pages) \<Rightarrow> map_of pages pagePath)"

section \<open>The import graph and the invariants of a pass\<close>

text \<open>
  The import graph: an edge from every file that is read and analysed without error to
  each component path its imports resolve to. \<open>acyclicFrom E p\<close> says that no file
  reachable from \<open>p\<close> lies on an import cycle, and \<open>reachApis E p\<close> is the set of the
  descriptors declared directly in \<open>p\<close> or in a file reachable from \<open>p\<close>.
\<close>

definition edges :: "env \<Rightarrow> (path \<times> path) set" where
  "edges E = {(p, q). \<exists>direct children. source E p = Some (direct, children) \<and> q \<in> set children}"

definition acyclicFrom :: "env \<Rightarrow> path \<Rightarrow> bool" where
  "acyclicFrom E p = (\<forall>q. (p, q) \<in> (edges E)\<^sup>* \<longrightarrow> (q, q) \<notin> (edges E)\<^sup>+)"

definition reachApis :: "env \<Rightarrow> path \<Rightarrow> ApiInfo set" where
  "reachApis E p =
     {api. \<exists>q direct children.
        (p, q) \<in> (edges E)\<^sup>* \<and> source E q = Some (direct, children) \<and> api \<in> set direct}"

text \<open>
  What holds of the state between two entries of a pass:
  \<^item> \<open>cacheSound\<close>: a memoized list belongs to a file that was read and analysed, and
    holds the file's direct descriptors;
  \<^item> \<open>cacheComplete\<close>: the list memoized for a file from which no cycle is reachable
    holds every descriptor reachable from it, and every analysed file reachable from it
    is memoized too;
  \<^item> \<open>readsOnce\<close>: an analysed file has been read once if it is memoized or being
    processed, and never otherwise;
  \<^item> \<open>stackIsMissing\<close>: the processing stack holds only paths of missing files.
  During a walk, \<open>onPath E v st p\<close> says that every visited path, and every existing file
  on the processing stack, is a proper ancestor of \<open>p\<close> in the import graph.
\<close>

definition cacheSound :: "env \<Rightarrow> state \<Rightarrow> bool" where
  "cacheSound E st =
     (\<forall>p r. componentCache st p = Some r \<longrightarrow>
        (\<exists>direct children. source E p = Some (direct, children) \<and> set direct \<subseteq> set r))"

definition cacheComplete :: "env \<Rightarrow> state \<Rightarrow> bool" where
  "cacheComplete E st =
     (\<forall>p r. componentCache st p = Some r \<longrightarrow> acyclicFrom E p \<longrightarrow>
        reachApis E p \<subseteq> set r \<and>
        (\<forall>q. (p, q) \<in> (edges E)\<^sup>* \<longrightarrow> source E q \<noteq> None \<longrightarrow> q \<in> dom (componentCache st)))"

definition readsOnce :: "env \<Rightarrow> state \<Rightarrow> bool" where
  "readsOnce E st =
     (\<forall>p. source E p \<noteq> None \<longrightarrow>
        count_list (reads st) p =
          (if p \<in> dom (componentCache st) \<or> p \<in> processingStack st then 1 else 0))"

definition stackIsMissing :: "env \<Rightarrow> state \<Rightarrow> bool" where
  "stackIsMissing E st = (\<forall>p \<in> processingStack st. map_of (disk E) p = None)"

definition onPath :: "env \<Rightarrow> path set \<Rightarrow> state \<Rightarrow> path \<Rightarrow> bool" where
  "onPath E v st p =
     (\<forall>q. (q \<in> v \<or> (q \<in> processingStack st \<and> map_of (disk E) q \<noteq> None)) \<longrightarrow> (q, p) \<in> (edges E)\<^sup>+)"

definition passInv :: "env \<Rightarrow> state \<Rightarrow> bool" where
  "passInv E st = (cacheSound E st \<and> cacheComplete E st \<and> readsOnce E st \<and> stackIsMissing E st)"

section \<open>The walk, case by case\<close>

lemmas patterns = seqs_def str_def Plus_def match_here_def isSpace_def isWord_def isAny_def
  isQuote3_def isQuote2_def isDot_def isSep_def

lemmas detection = extractDirectApisWithConfig_def urlLiteralApis_def urlLiteralRe_def stripRe_def
  urlKeyRe_def urlLine_def tableEnv_def

lemma walk_blocked:
  "p \<in> v \<or> p \<in> processingStack st \<Longrightarrow>
   extractApisFromComponentWithConfig E p v st = ([], st)"
  by simp

lemma walk_cached:
  "p \<notin> v \<Longrightarrow> p \<notin> processingStack st \<Longrightarrow> componentCache st p = Some r \<Longrightarrow>
   extractApisFromComponentWithConfig E p v st = (r, st)"
  by simp

lemma walk_missing:
  "p \<notin> v \<Longrightarrow> p \<notin> processingStack st \<Longrightarrow> componentCache st p = None \<Longrightarrow>
   map_of (disk E) p = None \<Longrightarrow>
   extractApisFromComponentWithConfig E p v st =
     ([], st\<lparr>processingStack := insert p (processingStack st)\<rparr>)"
  by simp

lemma walk_raises:
  "p \<notin> v \<Longrightarrow> p \<notin> processingStack st \<Longrightarrow> componentCache st p = None \<Longrightarrow>
   raises E p \<Longrightarrow>
   extractApisFromComponentWithConfig E p v st = ([], st\<lparr>reads := reads st @ [p]\<rparr>)"
  by (auto simp: Let_def raises_def split: option.splits sum.splits)

lemma walk_source:
  "p \<notin> v \<Longrightarrow> p \<notin> processingStack st \<Longrightarrow> componentCache st p = None \<Longrightarrow>
   source E p = Some (direct, children) \<Longrightarrow>
   extractApisFromComponentWithConfig E p v st =
     (case walkImports E children (insert p v) direct
             (st\<lparr>processingStack := insert p (processingStack st),
                 reads := reads st @ [p]\<rparr>) of
        (apis, st3) \<Rightarrow>
          (apis, st3\<lparr>componentCache := (componentCache st3)(p \<mapsto> apis),
                     processingStack := processingStack st3 - {p}\<rparr>))"
  by (auto simp: Let_def source_def split: option.splits sum.splits)

lemma file_status:
  "map_of (disk E) p = None \<or> raises E p \<or> (\<exists>direct children. source E p = Some (direct, children))"
  by (simp add: raises_def source_def split: option.splits sum.splits)

lemma file_cases:
  obtains (missing) "map_of (disk E) p = None"
  | (raises) "raises E p"
  | (source) direct children where "source E p = Some (direct, children)"
  using file_status [of E p] by auto

lemma walk_induct [case_names blocked cached missing raises source nil cons]:
  assumes "\<And>E p v st. p \<in> v \<or> p \<in> processingStack st \<Longrightarrow> P E p v st"
    and "\<And>E p v st r. p \<notin> v \<Longrightarrow> p \<notin> processingStack st \<Longrightarrow> componentCache st p = Some r \<Longrightarrow> P E p v st"
    and "\<And>E p v st. p \<notin> v \<Longrightarrow> p \<notin> processingStack st \<Longrightarrow> componentCache st p = None \<Longrightarrow>
           map_of (disk E) p = None \<Longrightarrow> P E p v st"
    and "\<And>E p v st. p \<notin> v \<Longrightarrow> p \<notin> processingStack st \<Longrightarrow> componentCache st p = None \<Longrightarrow>
           raises E p \<Longrightarrow> P E p v st"
    and "\<And>E p v st direct children. p \<notin> v \<Longrightarrow> p \<notin> processingStack st \<Longrightarrow> componentCache st p = None \<Longrightarrow>
           source E p = Some (direct, children) \<Longrightarrow>
           Q E children (insert p v) direct
             (st\<lparr>processingStack := insert p (processingStack st), reads := reads st @ [p]\<rparr>) \<Longrightarrow>
           P E p v st"
    and "\<And>E v a st. Q E [] v a st"
    and "\<And>E c cs v a st. P E c v st \<Longrightarrow>
           Q E cs v (a @ fst (extractApisFromComponentWithConfig E c v st))
             (snd (extractApisFromComponentWithConfig E c v st)) \<Longrightarrow>
           Q E (c # cs) v a st"
  shows "P E p v st" and "Q E cs v a st"
proof (induction E p v st and E cs v a st rule: extractApisFromComponentWithConfig_walkImports.induct)
  case (1 E p v st)
  show ?case
  proof (cases "p \<in> v \<or> p \<in> processingStack st")
    case True
    then show ?thesis by (rule assms(1))
  next
    case free: False
    show ?thesis
    proof (cases "componentCache st p")
      case (Some r)
      with free show ?thesis by (intro assms(2)) auto
    next
      case None
      show ?thesis
      proof (cases rule: file_cases [of E p])
        case missing
        with free None show ?thesis by (intro assms(3)) auto
      next
        case raises
        with free None show ?thesis by (intro assms(4)) auto
      next
        case (source direct children)
        then obtain code where c: "map_of (disk E) p = Some (Inr code)"
          "directApis E code p = Inr direct" "children = componentImports E code p"
          by (auto simp: source_def split: option.splits sum.splits)
        have "Q E children (insert p v) direct
               (st\<lparr>processingStack := insert p (processingStack st), reads := reads st @ [p]\<rparr>)"
          unfolding c(3) using free None c(1,2) by (intro "1.IH") auto
        with free None source show ?thesis by (intro assms(5)) auto
      qed
    qed
  qed
next
  case (2 E v a st)
  show ?case by (rule assms(6))
next
  case (3 E c cs v a st)
  show ?case
    by (rule assms(7)) (use 3 in \<open>auto simp: prod_eq_iff\<close>)
qed

lemma walkImports_Cons:
  "walkImports E (c # cs) v a st =
     walkImports E cs v (a @ fst (extractApisFromComponentWithConfig E c v st))
       (snd (extractApisFromComponentWithConfig E c v st))"
  by (simp add: case_prod_beta)

declare extractApisFromComponentWithConfig.simps [simp del]
declare walkImports.simps(2) [simp del]

lemma walk_frame:
  "viewApiData (snd (extractApisFromComponentWithConfig E p v st)) = viewApiData st"
  "viewApiData (snd (walkImports E cs v a st)) = viewApiData st"
proof (induction E p v st and E cs v a st rule: walk_induct)
  case (source E p v st direct children)
  then show ?case by (simp add: walk_source case_prod_beta)
qed (simp_all add: walk_blocked walk_cached walk_missing walk_raises walkImports_Cons)

lemma walk_prototype:
  "objectPrototype (snd (extractApisFromComponentWithConfig E p v st)) = objectPrototype st"
  "objectPrototype (snd (walkImports E cs v a st)) = objectPrototype st"
proof (induction E p v st and E cs v a st rule: walk_induct)
  case (source E p v st direct children)
  then show ?case by (simp add: walk_source case_prod_beta)
qed (simp_all add: walk_blocked walk_cached walk_missing walk_raises walkImports_Cons)

lemma walk_inherited:
  "inherited (snd (extractApisFromComponentWithConfig E p v st)) key = inherited st key"
  by (simp add: inherited_def walk_prototype)

lemma walk_cache_mono:
  "componentCache st q = Some r \<Longrightarrow>
   componentCache (snd (extractApisFromComponentWithConfig E p v st)) q = Some r"
  "componentCache st q = Some r \<Longrightarrow>
   componentCache (snd (walkImports E cs v a st)) q = Some r"
proof (induction E p v st and E cs v a st rule: walk_induct)
  case (source E p v st direct children)
  then show ?case by (auto simp add: walk_source case_prod_beta)
qed (simp_all add: walk_blocked walk_cached walk_missing walk_raises walkImports_Cons)

lemma walk_stack:
  "processingStack st \<subseteq> processingStack (snd (extractApisFromComponentWithConfig E p v st)) \<and>
   processingStack (snd (extractApisFromComponentWithConfig E p v st)) - processingStack st
     \<subseteq> {q. map_of (disk E) q = None}"
  "processingStack st \<subseteq> processingStack (snd (walkImports E cs v a st)) \<and>
   processingStack (snd (walkImports E cs v a st)) - processingStack st
     \<subseteq> {q. map_of (disk E) q = None}"
proof (induction E p v st and E cs v a st rule: walk_induct)
  case (source E p v st direct children)
  then have "map_of (disk E) p \<noteq> None" by (auto simp: source_def split: option.splits)
  with source show ?case by (auto simp add: walk_source case_prod_beta)
next
  case (cons E c cs v a st)
  then show ?case by (simp add: walkImports_Cons) blast
qed (auto simp add: walk_blocked walk_cached walk_missing walk_raises)

lemma walkImports_acc:
  "walkImports E cs v a st = (a @ fst (walkImports E cs v [] st), snd (walkImports E cs v [] st))"
proof (induction cs arbitrary: a st)
  case Nil
  show ?case by simp
next
  case (Cons c cs)
  show ?case
    by (subst (1 2 3) walkImports_Cons) (simp add: Cons [of "a @ _"] Cons [of "fst _"])
qed


section \<open>The scenarios, evaluated\<close>

lemmas catalogue = analyzeApiFile_def apiOfMatch_def exportConstRe_def
  exportFunctionRe_def requestTail_def constNameRe_def functionNameRe_def requestRe_def
  urlFieldRe_def methodFieldRe_def dynamicPartRe_def toUpperCase_def lowerCase_def upperCase_def
  List.map_filter_def

lemma analyzeApiFile_getUserModule:
  "analyzeApiFile (Inr getUserModule) =
     [\<lparr>url = ''/user/'', method = ''GET'', functionName = Some ''getUser''\<rparr>]"
  by (simp add: getUserModule_def catalogue patterns)

lemma analyzeApiFile_twoText:
  "analyzeApiFile (Inr twoText) =
     [\<lparr>url = ''/x'', method = ''GET'', functionName = Some ''getA''\<rparr>,
      \<lparr>url = ''/x'', method = ''GET'', functionName = Some ''getB''\<rparr>]"
  by (simp add: twoText_def catalogue patterns)

lemmas matching = viewsMatch_def viewsPattern_def isSyntaxCharacter_def

lemma userPage_entry: "viewsMatch ''src/views'' E userPage = Inr (Some ''user/index.vue'')"
  by (simp add: userPage_def matching patterns)

lemma userPage_category: "categoryAndPage ''user/index.vue'' = (''user'', ''user'')"
  by (simp add: categoryAndPage_def)

lemmas recording = recordApis_def inherited_def prototypeNames_def addProperty_def arrayIndex_def
  modifyKey_def addAll_def setAdd_def

lemmas pass = processFiles_def processFileWithConfig_def userPage_entry userPage_category
  extractApisFromComponentWithConfig.simps walkImports.simps fresh_def recording

lemma catalog_view:
  "viewApiData (processFiles ''src/views'' catalogEnv [userPage] fresh) =
     [(''user'', [(''user'', [\<lparr>url = ''/user/'', method = ''GET'', functionName = Some ''getUser''\<rparr>])])]"
  by (simp add: pass catalogEnv_def callsEnv_def analyzeApiFile_getUserModule List.map_filter_def
      detection patterns)

lemma mixed_view:
  "viewApiData (processFiles ''src/views'' mixedEnv [userPage] fresh) =
     [(''user'', [(''user'', [\<lparr>url = ''/user/'', method = ''UNKNOWN'', functionName = None\<rparr>,
         \<lparr>url = ''/user/'', method = ''GET'', functionName = Some ''getUser''\<rparr>])])]"
  by (simp add: pass mixedEnv_def callsEnv_def analyzeApiFile_getUserModule List.map_filter_def
      detection patterns)

lemma two_view:
  "viewApiData (processFiles ''src/views'' twoEnv [userPage] fresh) =
     [(''user'', [(''user'', [\<lparr>url = ''/x'', method = ''GET'', functionName = Some ''getA''\<rparr>,
         \<lparr>url = ''/x'', method = ''GET'', functionName = Some ''getB''\<rparr>])])]"
  by (simp add: pass twoEnv_def callsEnv_def analyzeApiFile_twoText List.map_filter_def
      detection patterns)

lemmas writing = buildStart_def generateApiFile_def categoryView_def shouldFlatten_def sortApis_def
  document_def apiJson_def

lemma unsorted_view:
  "viewApiData (processFiles ''src/views'' unsortedEnv [userPage] fresh) =
     [(''user'', [(''user'', [\<lparr>url = ''/b'', method = ''UNKNOWN'', functionName = None\<rparr>,
         \<lparr>url = ''/a'', method = ''UNKNOWN'', functionName = None\<rparr>])])]"
  by (simp add: pass unsortedEnv_def detection patterns)

lemma userPage_entryPage: "entryPage ''src/views'' E userPage = Some (''user'', ''user'')"
  by (simp add: entryPage_def userPage_entry userPage_category)

lemma dup_walk:
  "fst (extractApisFromComponentWithConfig dupEnv userPage {} fresh) =
     [\<lparr>url = ''/x'', method = ''UNKNOWN'', functionName = None\<rparr>,
      \<lparr>url = ''/x'', method = ''UNKNOWN'', functionName = None\<rparr>]"
  by (simp add: extractApisFromComponentWithConfig.simps walkImports.simps fresh_def dupEnv_def
     userPage_def partPath_def detection patterns)

section \<open>Sorting and the arrays of the output\<close>

lemma set_insertApi: "set (insertApi lc a bs) = insert a (set bs)"
  by (induction bs) auto

lemma sorted_insertApi:
  assumes "consistent lc" and "sorted_wrt (\<lambda>a b. lc (url a) (url b) \<le> 0) bs"
  shows "sorted_wrt (\<lambda>a b. lc (url a) (url b) \<le> 0) (insertApi lc a bs)"
  using assms(2)
proof (induction bs)
  case Nil
  show ?case by simp
next
  case (Cons b bs)
  have total: "\<And>x y. lc x y \<le> 0 \<or> lc y x \<le> 0"
    and trans: "\<And>x y z. lc x y \<le> 0 \<Longrightarrow> lc y z \<le> 0 \<Longrightarrow> lc x z \<le> 0"
    using assms(1) by (auto simp: consistent_def)
  show ?case
  proof (cases "lc (url a) (url b) \<le> 0")
    case True
    with Cons.prems trans show ?thesis by auto
  next
    case False
    then have "lc (url b) (url a) \<le> 0" using total by blast
    with False Cons show ?thesis by (auto simp: set_insertApi)
  qed
qed

lemma sorted_sortApis:
  "consistent lc \<Longrightarrow> sorted_wrt (\<lambda>a b. lc (url a) (url b) \<le> 0) (sortApis lc apis)"
  unfolding sortApis_def by (induction apis) (simp_all add: sorted_insertApi)

lemma filter_insertApi:
  assumes "consistent lc"
  shows "filter (\<lambda>x. url x = u) (insertApi lc a bs) =
           (if url a = u then a # filter (\<lambda>x. url x = u) bs else filter (\<lambda>x. url x = u) bs)"
proof -
  have refl: "\<And>x. lc x x \<le> 0" using assms by (auto simp: consistent_def)
  show ?thesis by (induction bs) (auto simp: refl)
qed

lemma filter_sortApis:
  "consistent lc \<Longrightarrow> filter (\<lambda>x. url x = u) (sortApis lc apis) = filter (\<lambda>x. url x = u) apis"
  unfolding sortApis_def by (induction apis) (simp_all add: filter_insertApi)

lemma set_sortApis: "set (sortApis lc apis) = set apis"
  unfolding sortApis_def by (induction apis) (simp_all add: set_insertApi)

lemma distinct_insertApi: "distinct (insertApi lc a bs) = (a \<notin> set bs \<and> distinct bs)"
  by (induction bs) (auto simp: set_insertApi)

lemma distinct_sortApis: "distinct (sortApis lc apis) = distinct apis"
  unfolding sortApis_def
  by (induction apis) (simp_all add: distinct_insertApi set_sortApis [unfolded sortApis_def])

lemma count_insertApi: "count_list (insertApi lc a bs) x = count_list (a # bs) x"
  by (induction bs) auto

lemma count_sortApis: "count_list (sortApis lc apis) x = count_list apis x"
  unfolding sortApis_def by (induction apis) (simp_all add: count_insertApi)

lemma memberLists_Cons:
  "memberLists ((cat, pages) # data) = map snd pages @ memberLists data"
  by (simp add: memberLists_def)

lemma arrays_Cons:
  "arrays ((cat, v) # out) = (case v of Flat apis \<Rightarrow> [apis] | Nested ps \<Rightarrow> map snd ps) @ arrays out"
  by (simp add: arrays_def)

lemma categoryView_arrays:
  assumes "categoryView lc cat pages = Inr v"
    and "arr \<in> set (case v of Flat apis \<Rightarrow> [apis] | Nested ps \<Rightarrow> map snd ps)"
  shows "\<exists>members \<in> set (map snd pages). arr = sortApis lc members"
proof (cases "shouldFlatten cat (map fst pages)")
  case True
  with assms(1) obtain pagePath members rest where
    "pages = (pagePath, members) # rest" "v = Flat (sortApis lc members)"
    by (auto simp: categoryView_def split: list.splits)
  with assms(2) show ?thesis by simp
next
  case False
  with assms(1) have "v = Nested (map (\<lambda>(pagePath, members). (pagePath, sortApis lc members)) pages)"
    by (simp add: categoryView_def)
  with assms(2) obtain x where "x \<in> set pages" "arr = sortApis lc (snd x)"
    by (auto simp: case_prod_beta)
  then show ?thesis by auto
qed

lemma outputData_arrays:
  "outputData lc data = Inr out \<Longrightarrow> arr \<in> set (arrays out) \<Longrightarrow>
   \<exists>members \<in> set (memberLists data). arr = sortApis lc members"
proof (induction data arbitrary: out)
  case Nil
  then show ?case by (simp add: arrays_def)
next
  case (Cons cp data)
  obtain cat pages where cp: "cp = (cat, pages)" by (cases cp)
  from Cons.prems(1) obtain v rest where v: "categoryView lc cat pages = Inr v"
    and rest: "outputData lc data = Inr rest" and out: "out = (cat, v) # rest"
    by (auto simp: cp split: sum.splits)
  from Cons.prems(2) consider
    (here) "arr \<in> set (case v of Flat apis \<Rightarrow> [apis] | Nested ps \<Rightarrow> map snd ps)"
    | (later) "arr \<in> set (arrays rest)"
    unfolding out arrays_Cons by auto
  then show ?case
  proof cases
    case here
    from categoryView_arrays [OF v here] obtain members
      where "members \<in> set (map snd pages)" "arr = sortApis lc members" by blast
    then show ?thesis
      unfolding cp memberLists_Cons by auto
  next
    case later
    from Cons.IH [OF rest later] obtain members
      where "members \<in> set (memberLists data)" "arr = sortApis lc members" by blast
    then show ?thesis
      unfolding cp memberLists_Cons by auto
  qed
qed

lemma consistent_codeUnitCompare: "consistent codeUnitCompare"
  by (auto simp: consistent_def codeUnitCompare_def)

section \<open>The sets of a page\<close>

lemma processFile_none:
  "entryPage viewsDir E f = None \<Longrightarrow> processFileWithConfig viewsDir E f st = st"
  by (simp add: processFileWithConfig_def entryPage_def split: sum.splits option.splits)

lemma processFile_entry:
  "entryPage viewsDir E f = Some (cat, page) \<Longrightarrow>
   processFileWithConfig viewsDir E f st =
     (if fst (extractApisFromComponentWithConfig E f {} st) \<noteq> []
      then recordApis cat page (fst (extractApisFromComponentWithConfig E f {} st))
             (snd (extractApisFromComponentWithConfig E f {} st))
      else snd (extractApisFromComponentWithConfig E f {} st))"
  by (auto simp add: processFileWithConfig_def entryPage_def case_prod_beta Let_def
      split: sum.splits option.splits)

lemma record_frame:
  "componentCache (recordApis cat page apis st) = componentCache st"
  "processingStack (recordApis cat page apis st) = processingStack st"
  "reads (recordApis cat page apis st) = reads st"
  by (simp_all add: recordApis_def Let_def split: option.splits)

lemma set_addAll: "set (addAll members apis) = set members \<union> set apis"
  unfolding addAll_def by (induction apis arbitrary: members) (auto simp: setAdd_def)

lemma distinct_addAll: "distinct members \<Longrightarrow> distinct (addAll members apis)"
  unfolding addAll_def by (induction apis arbitrary: members) (auto simp: setAdd_def)

lemma map_of_modifyKey:
  "map_of (modifyKey k f obj) k' = (if k' = k then map_option f (map_of obj k) else map_of obj k')"
  by (induction obj) (auto simp: modifyKey_def)

lemma fst_modifyKey: "map fst (modifyKey k f obj) = map fst obj"
  by (induction obj) (auto simp: modifyKey_def)

lemma in_modifyKey:
  "(k, v) \<in> set (modifyKey key f obj) \<longleftrightarrow>
     (k \<noteq> key \<and> (k, v) \<in> set obj) \<or> (k = key \<and> (\<exists>v0. (k, v0) \<in> set obj \<and> v = f v0))"
  unfolding modifyKey_def by (force split: if_splits)

lemma set_insertIndex: "set (insertIndex n k v obj) = insert (k, v) (set obj)"
  by (induction n k v obj rule: insertIndex.induct) (auto split: option.splits)

lemma set_addProperty: "set (addProperty k v obj) = insert (k, v) (set obj)"
  by (simp add: addProperty_def set_insertIndex split: option.splits)

lemma map_of_insertIndex:
  "map_of obj k = None \<Longrightarrow>
   map_of (insertIndex n k v obj) k' = (if k' = k then Some v else map_of obj k')"
  by (induction n k v obj rule: insertIndex.induct) (auto split: option.splits if_splits)

lemma map_of_addProperty:
  "map_of obj k = None \<Longrightarrow>
   map_of (addProperty k v obj) k' = (if k' = k then Some v else map_of obj k')"
  by (auto simp: addProperty_def map_of_insertIndex map_add_def split: option.splits)

lemma distinct_insertIndex:
  "k \<notin> fst ` set obj \<Longrightarrow> distinct (map fst obj) \<Longrightarrow> distinct (map fst (insertIndex n k v obj))"
proof (induction n k v obj rule: insertIndex.induct)
  case (1 n key v)
  show ?case by simp
next
  case (2 n key v k w obj)
  have "fst ` set (insertIndex n key v obj) = insert key (fst ` set obj)"
    by (simp add: set_insertIndex)
  with 2 show ?case by (auto split: option.splits)
qed

lemma distinct_addProperty:
  "map_of obj k = None \<Longrightarrow> distinct (map fst obj) \<Longrightarrow> distinct (map fst (addProperty k v obj))"
  by (auto simp: addProperty_def distinct_insertIndex map_of_eq_None_iff split: option.splits)

text \<open>What the recording block does to \<open>viewApiData\<close>, case by case.\<close>

lemma record_cases [case_names same created category page members]:
  obtains
    (same) "viewApiData (recordApis cat page apis st) = viewApiData st"
  | (created) "map_of (viewApiData st) cat = None" and "\<not> inherited st cat" and "inherited st page"
      and "viewApiData (recordApis cat page apis st) = addProperty cat [] (viewApiData st)"
  | (category) "map_of (viewApiData st) cat = None" and "\<not> inherited st cat"
      and "\<not> inherited st page"
      and "viewApiData (recordApis cat page apis st) =
             modifyKey cat (addProperty page (addAll [] apis)) (addProperty cat [] (viewApiData st))"
  | (page) pages where "map_of (viewApiData st) cat = Some pages" and "map_of pages page = None"
      and "\<not> inherited st page"
      and "viewApiData (recordApis cat page apis st) =
             modifyKey cat (addProperty page (addAll [] apis)) (viewApiData st)"
  | (members) pages members where "map_of (viewApiData st) cat = Some pages"
      and "map_of pages page = Some members"
      and "viewApiData (recordApis cat page apis st) =
             modifyKey cat (modifyKey page (\<lambda>members. addAll members apis)) (viewApiData st)"
proof (cases "map_of (viewApiData st) cat")
  case None
  show ?thesis
  proof (cases "inherited st cat")
    case True
    with None have "viewApiData (recordApis cat page apis st) = viewApiData st"
      by (simp add: recordApis_def)
    then show ?thesis by (rule same)
  next
    case no: False
    show ?thesis
    proof (cases "inherited st page")
      case True
      with None no have "viewApiData (recordApis cat page apis st) = addProperty cat [] (viewApiData st)"
        by (auto simp: recordApis_def inherited_def map_of_addProperty Let_def)
      with None no True show ?thesis by (rule created)
    next
      case False
      with None no have "viewApiData (recordApis cat page apis st) =
          modifyKey cat (addProperty page (addAll [] apis)) (addProperty cat [] (viewApiData st))"
        by (auto simp: recordApis_def inherited_def map_of_addProperty Let_def)
      with None no False show ?thesis by (rule category)
    qed
  qed
next
  case (Some pages)
  show ?thesis
  proof (cases "map_of pages page")
    case None
    show ?thesis
    proof (cases "inherited st page")
      case True
      with Some None have "viewApiData (recordApis cat page apis st) = viewApiData st"
        by (auto simp: recordApis_def inherited_def)
      then show ?thesis by (rule same)
    next
      case False
      with Some None have "viewApiData (recordApis cat page apis st) =
          modifyKey cat (addProperty page (addAll [] apis)) (viewApiData st)"
        by (auto simp: recordApis_def inherited_def)
      with Some None False show ?thesis by (rule page)
    qed
  next
    case inner: (Some members)
    with Some have "viewApiData (recordApis cat page apis st) =
        modifyKey cat (modifyKey page (\<lambda>members. addAll members apis)) (viewApiData st)"
      by (simp add: recordApis_def)
    with Some inner show ?thesis by (rule members)
  qed
qed

lemma pageMembers_record:
  assumes "\<not> inherited st cat" and "\<not> inherited st page"
  shows "pageMembers (viewApiData (recordApis cat page apis st)) cat page =
           addAll (pageMembers (viewApiData st) cat page) apis"
proof (cases rule: record_cases [of cat page apis st])
  case same
  show ?thesis
  proof (cases "map_of (viewApiData st) cat")
    case None
    with assms show ?thesis by (simp add: recordApis_def inherited_def pageMembers_def map_of_modifyKey map_of_addProperty)
  next
    case (Some pages)
    with assms show ?thesis
      by (cases "map_of pages page")
         (simp_all add: recordApis_def inherited_def pageMembers_def map_of_modifyKey map_of_addProperty)
  qed
next
  case created
  with assms show ?thesis by simp
next
  case category
  then show ?thesis by (simp add: pageMembers_def map_of_modifyKey map_of_addProperty)
next
  case (page pages)
  then show ?thesis by (simp add: pageMembers_def map_of_modifyKey map_of_addProperty)
next
  case (members pages ms)
  then show ?thesis by (simp add: pageMembers_def map_of_modifyKey)
qed

lemma pageMembers_record_mono:
  "set (pageMembers (viewApiData st) c p) \<subseteq> set (pageMembers (viewApiData (recordApis cat page apis st)) c p)"
proof (cases rule: record_cases [of cat page apis st])
  case same
  then show ?thesis by simp
next
  case created
  then show ?thesis by (auto simp: pageMembers_def map_of_addProperty split: option.splits)
next
  case category
  then show ?thesis
    by (auto simp: pageMembers_def map_of_modifyKey map_of_addProperty split: option.splits if_splits)
next
  case (page pages)
  then show ?thesis
    by (auto simp: pageMembers_def map_of_modifyKey map_of_addProperty split: option.splits if_splits)
next
  case (members pages ms)
  then show ?thesis
    by (auto simp: pageMembers_def map_of_modifyKey set_addAll split: option.splits if_splits)
qed

lemma set_memberLists: "set (memberLists data) = (\<Union>pages \<in> snd ` set data. snd ` set pages)"
proof (induction data)
  case Nil
  show ?case by (simp add: memberLists_def)
next
  case (Cons cp data)
  obtain cat pages where "cp = (cat, pages)" by (cases cp)
  with Cons show ?case by (simp add: memberLists_Cons)
qed

lemma duplicateFree_iff:
  "duplicateFree data \<longleftrightarrow> (\<forall>cat pages page ms. (cat, pages) \<in> set data \<longrightarrow> (page, ms) \<in> set pages \<longrightarrow> distinct ms)"
  unfolding duplicateFree_def set_memberLists by force

lemma duplicateFree_addProperty:
  "duplicateFree data \<Longrightarrow> duplicateFree (addProperty cat [] data)"
  unfolding duplicateFree_iff by (auto simp: set_addProperty)

lemma duplicateFree_modifyKey:
  assumes "duplicateFree data"
    and "\<And>pages page ms. (cat, pages) \<in> set data \<Longrightarrow> (page, ms) \<in> set (f pages) \<Longrightarrow> distinct ms"
  shows "duplicateFree (modifyKey cat f data)"
  using assms unfolding duplicateFree_iff in_modifyKey by blast

lemma duplicateFree_record:
  assumes "duplicateFree (viewApiData st)"
  shows "duplicateFree (viewApiData (recordApis cat page apis st))"
proof (cases rule: record_cases [of cat page apis st])
  case same
  with assms show ?thesis by simp
next
  case created
  with assms show ?thesis by (simp add: duplicateFree_addProperty)
next
  case category
  have "duplicateFree (modifyKey cat (addProperty page (addAll [] apis)) (addProperty cat [] (viewApiData st)))"
  proof (rule duplicateFree_modifyKey [OF duplicateFree_addProperty [OF assms]])
    fix pages p ms
    assume "(cat, pages) \<in> set (addProperty cat [] (viewApiData st))"
      and "(p, ms) \<in> set (addProperty page (addAll [] apis) pages)"
    with assms show "distinct ms"
      unfolding duplicateFree_iff by (auto simp: set_addProperty distinct_addAll)
  qed
  with category show ?thesis by simp
next
  case (page pages)
  have "duplicateFree (modifyKey cat (addProperty page (addAll [] apis)) (viewApiData st))"
  proof (rule duplicateFree_modifyKey [OF assms])
    fix pages p ms
    assume "(cat, pages) \<in> set (viewApiData st)"
      and "(p, ms) \<in> set (addProperty page (addAll [] apis) pages)"
    with assms show "distinct ms"
      unfolding duplicateFree_iff by (auto simp: set_addProperty distinct_addAll)
  qed
  with page show ?thesis by simp
next
  case (members pages ms)
  have "duplicateFree (modifyKey cat (modifyKey page (\<lambda>members. addAll members apis)) (viewApiData st))"
  proof (rule duplicateFree_modifyKey [OF assms])
    fix pages p ms
    assume "(cat, pages) \<in> set (viewApiData st)"
      and "(p, ms) \<in> set (modifyKey page (\<lambda>members. addAll members apis) pages)"
    with assms show "distinct ms"
      unfolding duplicateFree_iff in_modifyKey by (auto simp: distinct_addAll)
  qed
  with members show ?thesis by simp
qed

lemma duplicateFree_processFile:
  "duplicateFree (viewApiData st) \<Longrightarrow> duplicateFree (viewApiData (processFileWithConfig viewsDir E f st))"
proof (cases "entryPage viewsDir E f")
  case None
  then show "duplicateFree (viewApiData st) \<Longrightarrow> ?thesis" by (simp add: processFile_none)
next
  case (Some cp)
  obtain cat page where "cp = (cat, page)" by (cases cp)
  with Some show "duplicateFree (viewApiData st) \<Longrightarrow> ?thesis"
    by (simp add: processFile_entry duplicateFree_record walk_frame)
qed

lemma duplicateFree_processFiles:
  "duplicateFree (viewApiData st) \<Longrightarrow> duplicateFree (viewApiData (processFiles viewsDir E files st))"
  unfolding processFiles_def
  by (induction files arbitrary: st) (simp_all add: duplicateFree_processFile)

lemma duplicateFree_fresh: "duplicateFree (viewApiData fresh)"
  by (simp add: duplicateFree_def fresh_def memberLists_def)

lemma distinct_pageMembers:
  assumes "duplicateFree data"
  shows "distinct (pageMembers data cat page)"
proof -
  show ?thesis
  proof (cases "map_of data cat")
    case None
    then show ?thesis by (simp add: pageMembers_def)
  next
    case (Some pages)
    show ?thesis
    proof (cases "map_of pages page")
      case None
      with Some show ?thesis by (simp add: pageMembers_def)
    next
      case inner: (Some members)
      from Some have "(cat, pages) \<in> set data" by (rule map_of_SomeD)
      moreover from inner have "(page, members) \<in> set pages" by (rule map_of_SomeD)
      ultimately have "distinct members" using assms unfolding duplicateFree_iff by blast
      with Some inner show ?thesis by (simp add: pageMembers_def)
    qed
  qed
qed

lemma pageMembers_processFile_mono:
  "set (pageMembers (viewApiData st) c p) \<subseteq>
   set (pageMembers (viewApiData (processFileWithConfig viewsDir E f st)) c p)"
proof (cases "entryPage viewsDir E f")
  case None
  then show ?thesis by (simp add: processFile_none)
next
  case (Some cp)
  obtain cat page where "cp = (cat, page)" by (cases cp)
  with Some show ?thesis
    using pageMembers_record_mono [of "snd (extractApisFromComponentWithConfig E f {} st)" c p cat page]
    by (simp add: processFile_entry walk_frame)
qed

lemma pageMembers_processFiles_mono:
  "set (pageMembers (viewApiData st) c p) \<subseteq>
   set (pageMembers (viewApiData (processFiles viewsDir E files st)) c p)"
  unfolding processFiles_def
proof (induction files arbitrary: st)
  case Nil
  show ?case by simp
next
  case (Cons f files)
  from pageMembers_processFile_mono [of st c p viewsDir E f] Cons [of "processFileWithConfig viewsDir E f st"]
  show ?case by auto
qed

text \<open>Only the category \<^verbatim>\<open>__proto__\<close> stores something on \<^verbatim>\<open>Object.prototype\<close>.\<close>

lemma record_prototype:
  "cat \<noteq> ''__proto__'' \<Longrightarrow> objectPrototype (recordApis cat page apis st) = objectPrototype st"
  by (simp add: recordApis_def Let_def split: option.splits)

lemma processFile_prototype:
  assumes "entryPage viewsDir E f = Some (cat, page)" and "cat \<noteq> ''__proto__''"
  shows "objectPrototype (processFileWithConfig viewsDir E f st) = objectPrototype st"
  unfolding processFile_entry [OF assms(1)]
  by (simp add: record_prototype [OF assms(2)] walk_prototype)

text \<open>What the entry of a page records.\<close>

lemma pageMembers_entry:
  assumes "entryPage viewsDir E f = Some (cat, page)"
    and "\<not> inherited st cat" and "\<not> inherited st page"
  shows "set (pageMembers (viewApiData (processFileWithConfig viewsDir E f st)) cat page) =
           set (pageMembers (viewApiData st) cat page) \<union>
           set (fst (extractApisFromComponentWithConfig E f {} st))"
proof -
  let ?w = "extractApisFromComponentWithConfig E f {} st"
  have names: "\<not> inherited (snd ?w) cat" "\<not> inherited (snd ?w) page"
    using assms(2,3) by (simp_all add: walk_inherited)
  show ?thesis
    unfolding processFile_entry [OF assms(1)]
    by (simp add: pageMembers_record [OF names] set_addAll walk_frame)
qed

lemma count_distinct: "distinct xs \<Longrightarrow> x \<in> set xs \<Longrightarrow> count_list xs x = 1"
  by (induction xs) auto

section \<open>The array of a page in the output\<close>

lemma split_parts: "part \<in> set (split sep s) \<Longrightarrow> sep \<notin> set part"
proof (induction s arbitrary: part)
  case Nil
  then show ?case by simp
next
  case (Cons c cs)
  show ?case
  proof (cases "c = sep")
    case True
    with Cons show ?thesis by auto
  next
    case False
    show ?thesis
    proof (cases "split sep cs")
      case Nil
      with False Cons.prems show ?thesis by simp
    next
      case (Cons p ps)
      with False Cons.prems consider "part = c # p" | "part \<in> set ps" by auto
      then show ?thesis
      proof cases
        case 1
        have "sep \<notin> set p" by (rule Cons.IH) (simp add: Cons)
        with 1 False show ?thesis by auto
      next
        case 2
        show ?thesis by (rule Cons.IH) (simp add: Cons 2)
      qed
    qed
  qed
qed

lemma split_nonempty: "split sep s \<noteq> []"
  by (induction s) (auto split: list.splits)

lemma categoryAndPage_root:
  assumes "categoryAndPage fullPath = (''/'', page)"
  shows "page = ''/''"
proof (cases "length (split CHR ''/'' fullPath) = 1")
  case True
  with assms show ?thesis by (auto simp: categoryAndPage_def Let_def split: if_splits)
next
  case False
  with assms have "split CHR ''/'' fullPath ! 0 = ''/''"
    by (simp add: categoryAndPage_def Let_def)
  moreover have "split CHR ''/'' fullPath ! 0 \<in> set (split CHR ''/'' fullPath)"
    using split_nonempty [of "CHR ''/''" fullPath] by (intro nth_mem) simp
  ultimately show ?thesis using split_parts [of "''/''" "CHR ''/''" fullPath] by simp
qed

lemma entryPage_root: "entryPage viewsDir E f = Some (''/'', page) \<Longrightarrow> page = ''/''"
  by (auto simp: entryPage_def dest: categoryAndPage_root split: sum.splits option.splits)

lemma wellKeyed_record:
  assumes wk: "wellKeyed (viewApiData st)" and root: "cat = ''/'' \<longrightarrow> page = ''/''"
  shows "wellKeyed (viewApiData (recordApis cat page apis st))"
proof (cases rule: record_cases [of cat page apis st])
  case same
  with wk show ?thesis by simp
next
  case created
  from created(2,3) root have "cat \<noteq> ''/''" by auto
  with wk created(1) show ?thesis
    unfolding created(4) wellKeyed_def by (auto simp: distinct_addProperty set_addProperty)
next
  case category
  have none: "cat \<notin> fst ` set (viewApiData st)"
    using category(1) by (simp add: map_of_eq_None_iff)
  have d: "distinct (map fst (modifyKey cat (addProperty page (addAll [] apis))
             (addProperty cat [] (viewApiData st))))"
    using wk category(1) by (simp add: fst_modifyKey distinct_addProperty wellKeyed_def)
  have "map fst pages = [''/'']"
    if "(''/'', pages) \<in> set (modifyKey cat (addProperty page (addAll [] apis))
             (addProperty cat [] (viewApiData st)))" for pages
  proof (cases "cat = ''/''")
    case True
    with root have p: "page = ''/''" by simp
    from that True none p have "pages = addProperty ''/'' (addAll [] apis) []"
      unfolding in_modifyKey set_addProperty by force
    then show ?thesis by (simp add: addProperty_def arrayIndex_def)
  next
    case False
    with that have "(''/'', pages) \<in> set (viewApiData st)"
      unfolding in_modifyKey set_addProperty by auto
    with wk show ?thesis unfolding wellKeyed_def by auto
  qed
  with d show ?thesis unfolding category(4) wellKeyed_def by auto
next
  case (page pages)
  have d: "distinct (map fst (modifyKey cat (addProperty page (addAll [] apis)) (viewApiData st)))"
    using wk by (simp add: fst_modifyKey wellKeyed_def)
  have "cat \<noteq> ''/''"
  proof
    assume c: "cat = ''/''"
    with root have p: "page = ''/''" by simp
    from page(1) have "(cat, pages) \<in> set (viewApiData st)" by (rule map_of_SomeD)
    with wk c have "map fst pages = [''/'']" unfolding wellKeyed_def by auto
    then have "''/'' \<in> fst ` set pages" by (metis list.set_intros(1) set_map)
    with page(2) p show False by (simp add: map_of_eq_None_iff)
  qed
  then have keep: "(''/'', ps) \<in> set (modifyKey cat (addProperty page (addAll [] apis)) (viewApiData st))
      \<Longrightarrow> (''/'', ps) \<in> set (viewApiData st)" for ps
    unfolding in_modifyKey by auto
  have "map fst ps = [''/'']"
    if "(''/'', ps) \<in> set (modifyKey cat (addProperty page (addAll [] apis)) (viewApiData st))" for ps
    using keep [OF that] wk unfolding wellKeyed_def by auto
  with d show ?thesis unfolding page(4) wellKeyed_def by auto
next
  case (members pages ms)
  have d: "distinct (map fst (modifyKey cat (modifyKey page (\<lambda>members. addAll members apis))
             (viewApiData st)))"
    using wk by (simp add: fst_modifyKey wellKeyed_def)
  have "map fst ps = [''/'']"
    if "(''/'', ps) \<in> set (modifyKey cat (modifyKey page (\<lambda>members. addAll members apis))
             (viewApiData st))" for ps
    using that wk unfolding in_modifyKey wellKeyed_def by (auto simp: fst_modifyKey)
  with d show ?thesis unfolding members(3) wellKeyed_def by auto
qed

lemma wellKeyed_processFile:
  assumes "wellKeyed (viewApiData st)"
  shows "wellKeyed (viewApiData (processFileWithConfig viewsDir E f st))"
proof (cases "entryPage viewsDir E f")
  case None
  with assms show ?thesis by (simp add: processFile_none)
next
  case (Some cp)
  obtain cat page where cp: "cp = (cat, page)" by (cases cp)
  have root: "cat = ''/'' \<longrightarrow> page = ''/''"
    using Some cp entryPage_root [of viewsDir E f page] by auto
  have "wellKeyed (viewApiData (snd (extractApisFromComponentWithConfig E f {} st)))"
    using assms by (simp add: walk_frame)
  from wellKeyed_record [OF this root] Some cp assms show ?thesis
    by (simp add: processFile_entry walk_frame)
qed

lemma wellKeyed_processFiles:
  "wellKeyed (viewApiData st) \<Longrightarrow> wellKeyed (viewApiData (processFiles viewsDir E files st))"
  unfolding processFiles_def
  by (induction files arbitrary: st) (simp_all add: wellKeyed_processFile)

lemma wellKeyed_fresh: "wellKeyed (viewApiData fresh)"
  by (simp add: wellKeyed_def fresh_def)

lemma categoryView_total:
  "(cat = ''/'' \<longrightarrow> pages \<noteq> []) \<Longrightarrow> \<exists>v. categoryView lc cat pages = Inr v"
  by (cases pages) (auto simp: categoryView_def shouldFlatten_def)

lemma outputData_total:
  "\<forall>(cat, pages) \<in> set data. cat = ''/'' \<longrightarrow> pages \<noteq> [] \<Longrightarrow> \<exists>out. outputData lc data = Inr out"
proof (induction data)
  case Nil
  show ?case by simp
next
  case (Cons cp data)
  obtain cat pages where cp: "cp = (cat, pages)" by (cases cp)
  from Cons.prems cp have "cat = ''/'' \<longrightarrow> pages \<noteq> []" by simp
  from categoryView_total [OF this] obtain v where "categoryView lc cat pages = Inr v" by blast
  moreover from Cons obtain out where "outputData lc data = Inr out" by auto
  ultimately show ?case by (simp add: cp)
qed

lemma outputData_map_of:
  "outputData lc data = Inr out \<Longrightarrow> map_of data cat = Some pages \<Longrightarrow>
   \<exists>v. categoryView lc cat pages = Inr v \<and> map_of out cat = Some v"
proof (induction data arbitrary: out)
  case Nil
  then show ?case by simp
next
  case (Cons cp data)
  obtain c ps where cp: "cp = (c, ps)" by (cases cp)
  from Cons.prems(1) obtain v rest where v: "categoryView lc c ps = Inr v"
    and rest: "outputData lc data = Inr rest" and out: "out = (c, v) # rest"
    by (auto simp: cp split: sum.splits)
  show ?case
  proof (cases "c = cat")
    case True
    with Cons.prems(2) cp v out show ?thesis by simp
  next
    case False
    with Cons.prems(2) cp have "map_of data cat = Some pages" by simp
    from Cons.IH [OF rest this] False out show ?thesis by simp
  qed
qed

lemma categoryView_page:
  assumes "categoryView lc cat pages = Inr v" and "map_of pages page = Some members"
    and "cat = ''/'' \<longrightarrow> map fst pages = [''/'']"
  shows "(case v of Flat apis \<Rightarrow> Some apis | Nested ps \<Rightarrow> map_of ps page) = Some (sortApis lc members)"
proof (cases "shouldFlatten cat (map fst pages)")
  case True
  with assms(3) have "length pages = 1" by (auto simp: shouldFlatten_def dest: arg_cong [where f = length])
  then obtain k m where pages: "pages = [(k, m)]" by (cases pages) auto
  with assms(2) have "k = page" "m = members" by (auto split: if_splits)
  with assms(1) True pages show ?thesis by (auto simp: categoryView_def)
next
  case False
  with assms(1) have "v = Nested (map (\<lambda>(pagePath, members). (pagePath, sortApis lc members)) pages)"
    by (simp add: categoryView_def)
  with assms(2) show ?thesis by (simp add: map_of_map)
qed

lemma output_page:
  assumes "wellKeyed data" and "map_of data cat = Some pages" and "map_of pages page = Some members"
  shows "\<exists>out. outputData lc data = Inr out \<and> outputArray out cat page = Some (sortApis lc members)"
proof -
  have "\<forall>(c, ps) \<in> set data. c = ''/'' \<longrightarrow> ps \<noteq> []"
    using assms(1) unfolding wellKeyed_def by auto
  from outputData_total [OF this] obtain out where out: "outputData lc data = Inr out" by blast
  from outputData_map_of [OF out assms(2)] obtain v
    where v: "categoryView lc cat pages = Inr v" "map_of out cat = Some v" by blast
  from assms(2) have "(cat, pages) \<in> set data" by (rule map_of_SomeD)
  with assms(1) have "cat = ''/'' \<longrightarrow> map fst pages = [''/'']" unfolding wellKeyed_def by auto
  from categoryView_page [OF v(1) assms(3) this] v(2)
  have "outputArray out cat page = Some (sortApis lc members)"
    by (simp add: outputArray_def split: view.splits)
  with out show ?thesis by blast
qed

lemma pageMembers_own:
  assumes "api \<in> set (pageMembers data cat page)"
  shows "\<exists>pages. map_of data cat = Some pages \<and> map_of pages page = Some (pageMembers data cat page)"
proof -
  from assms obtain pages where pages: "map_of data cat = Some pages"
    by (cases "map_of data cat") (auto simp: pageMembers_def)
  with assms obtain members where "map_of pages page = Some members"
    by (cases "map_of pages page") (auto simp: pageMembers_def)
  with pages show ?thesis by (simp add: pageMembers_def)
qed

section \<open>What a memoized list holds\<close>

lemma source_exists: "source E p = Some (d, k) \<Longrightarrow> map_of (disk E) p \<noteq> None"
  by (auto simp: source_def split: option.splits)

lemma walkImports_fst: "fst (walkImports E cs v a st) = a @ fst (walkImports E cs v [] st)"
  by (subst walkImports_acc) simp

lemma walkImports_snd: "snd (walkImports E cs v a st) = snd (walkImports E cs v [] st)"
  by (subst walkImports_acc) simp

lemma walk_source_fst:
  "p \<notin> v \<Longrightarrow> p \<notin> processingStack st \<Longrightarrow> componentCache st p = None \<Longrightarrow>
   source E p = Some (direct, children) \<Longrightarrow>
   fst (extractApisFromComponentWithConfig E p v st) =
     fst (walkImports E children (insert p v) direct
           (st\<lparr>processingStack := insert p (processingStack st), reads := reads st @ [p]\<rparr>))"
  by (simp add: walk_source case_prod_beta)

lemma walk_source_snd:
  "p \<notin> v \<Longrightarrow> p \<notin> processingStack st \<Longrightarrow> componentCache st p = None \<Longrightarrow>
   source E p = Some (direct, children) \<Longrightarrow>
   snd (extractApisFromComponentWithConfig E p v st) =
     (let r = walkImports E children (insert p v) direct
           (st\<lparr>processingStack := insert p (processingStack st), reads := reads st @ [p]\<rparr>)
      in (snd r)\<lparr>componentCache := (componentCache (snd r))(p \<mapsto> fst r),
                  processingStack := processingStack (snd r) - {p}\<rparr>)"
  by (simp add: walk_source case_prod_beta Let_def)

lemma cacheSound_frame:
  "cacheSound E (st\<lparr>processingStack := s\<rparr>) = cacheSound E st"
  "cacheSound E (st\<lparr>reads := r\<rparr>) = cacheSound E st"
  by (simp_all add: cacheSound_def)

lemma walk_cacheSound:
  "cacheSound E st \<Longrightarrow> cacheSound E (snd (extractApisFromComponentWithConfig E p v st))"
  "cacheSound E st \<Longrightarrow> cacheSound E (snd (walkImports E cs v a st))"
proof (induction E p v st and E cs v a st rule: walk_induct)
  case (source E p v st direct children)
  let ?st2 = "st\<lparr>processingStack := insert p (processingStack st), reads := reads st @ [p]\<rparr>"
  let ?r = "walkImports E children (insert p v) direct ?st2"
  have "cacheSound E ?st2" using source.prems by (simp add: cacheSound_frame)
  then have s3: "cacheSound E (snd ?r)"
    by (rule source.IH)
  have d: "set direct \<subseteq> set (fst ?r)"
    by (subst walkImports_fst) simp
  have "cacheSound E ((snd ?r)\<lparr>componentCache := (componentCache (snd ?r))(p \<mapsto> fst ?r),
                  processingStack := processingStack (snd ?r) - {p}\<rparr>)"
    unfolding cacheSound_def
  proof (intro allI impI)
    fix q r
    assume q: "componentCache ((snd ?r)\<lparr>componentCache := (componentCache (snd ?r))(p \<mapsto> fst ?r),
                  processingStack := processingStack (snd ?r) - {p}\<rparr>) q = Some r"
    show "\<exists>direct children. source E q = Some (direct, children) \<and> set direct \<subseteq> set r"
    proof (cases "q = p")
      case True
      with q have "r = fst ?r" by simp
      with d source.hyps(4) True show ?thesis by blast
    next
      case False
      with q have "componentCache (snd ?r) q = Some r" by simp
      with s3 show ?thesis unfolding cacheSound_def by blast
    qed
  qed
  with source.hyps show ?case
    by (simp add: walk_source_snd Let_def)
next
  case (cons E c cs v a st)
  then show ?case by (simp add: walkImports_Cons)
next
  case (missing E p v st)
  then show ?case by (simp add: walk_missing cacheSound_frame)
next
  case (raises E p v st)
  then show ?case by (simp add: walk_raises cacheSound_frame)
qed (simp_all add: walk_blocked walk_cached)

lemma walk_contains_direct:
  assumes "cacheSound E st" and "source E p = Some (d, k)" and "p \<notin> v" and "p \<notin> processingStack st"
  shows "set d \<subseteq> set (fst (extractApisFromComponentWithConfig E p v st))"
proof (cases "componentCache st p")
  case None
  with assms show ?thesis
    by (simp add: walk_source_fst) (subst walkImports_fst, simp)
next
  case (Some r)
  with assms(1) obtain direct children where "source E p = Some (direct, children)" "set direct \<subseteq> set r"
    unfolding cacheSound_def by blast
  with assms(2) have "set d \<subseteq> set r" by simp
  with Some assms(3,4) show ?thesis by (simp add: walk_cached)
qed

lemma walk_stack_source:
  assumes "source E c = Some (d, k)"
  shows "c \<in> processingStack (snd (extractApisFromComponentWithConfig E p v st)) \<longleftrightarrow> c \<in> processingStack st"
    and "c \<in> processingStack (snd (walkImports E cs v a st)) \<longleftrightarrow> c \<in> processingStack st"
  using walk_stack(1) [of st E p v] walk_stack(2) [of st E cs v a] source_exists [OF assms]
  by auto

lemma walkImports_contains:
  assumes "source E c = Some (d, k)" and "c \<notin> v"
  shows "c \<in> set cs \<Longrightarrow> c \<notin> processingStack st \<Longrightarrow> cacheSound E st \<Longrightarrow>
         set d \<subseteq> set (fst (walkImports E cs v a st))"
proof (induction cs arbitrary: a st)
  case Nil
  then show ?case by simp
next
  case (Cons c' cs)
  let ?w = "extractApisFromComponentWithConfig E c' v st"
  show ?case
  proof (cases "c = c'")
    case True
    have "set d \<subseteq> set (fst ?w)"
      using walk_contains_direct [OF Cons.prems(3) assms(1) assms(2) Cons.prems(2)] True by simp
    then show ?thesis
      by (subst walkImports_Cons, subst walkImports_fst) auto
  next
    case False
    with Cons.prems have "c \<in> set cs" by simp
    moreover have "c \<notin> processingStack (snd ?w)"
      using Cons.prems(2) by (simp add: walk_stack_source [OF assms(1)])
    moreover have "cacheSound E (snd ?w)"
      using Cons.prems(3) by (rule walk_cacheSound)
    ultimately show ?thesis
      by (subst walkImports_Cons) (rule Cons.IH)
  qed
qed

lemma cycle_walk:
  assumes "source E A = Some (dA, kA)" and "B \<in> set kA"
    and "source E B = Some (dB, kB)" and "A \<in> set kB"
    and "cacheSound E st" and "A \<notin> processingStack st" and "B \<notin> processingStack st"
    and "componentCache st A = None"
  shows "\<exists>apis st'. extractApisFromComponentWithConfig E A {} st = (apis, st') \<and>
           set dA \<union> set dB \<subseteq> set apis"
proof -
  let ?st2 = "st\<lparr>processingStack := insert A (processingStack st), reads := reads st @ [A]\<rparr>"
  let ?r = "walkImports E kA {A} dA ?st2"
  have fst: "fst (extractApisFromComponentWithConfig E A {} st) = fst ?r"
    using assms by (simp add: walk_source_fst)
  have a: "set dA \<subseteq> set (fst ?r)"
    by (subst walkImports_fst) simp
  have b: "set dB \<subseteq> set (fst ?r)"
  proof (cases "B = A")
    case True
    with assms(1,3) a show ?thesis by simp
  next
    case False
    have "cacheSound E ?st2" using assms(5) by (simp add: cacheSound_def)
    moreover have "B \<notin> processingStack ?st2" using False assms(7) by simp
    ultimately show ?thesis
      using walkImports_contains [OF assms(3) _ assms(2), of "{A}" ?st2 dA] False by simp
  qed
  obtain apis st' where w: "extractApisFromComponentWithConfig E A {} st = (apis, st')"
    by (cases "extractApisFromComponentWithConfig E A {} st")
  with a b fst have "set dA \<union> set dB \<subseteq> set apis" by simp
  with w show ?thesis by blast
qed

section \<open>Reachability in the import graph\<close>

lemma edges_source: "(p, q) \<in> edges E \<Longrightarrow> source E p \<noteq> None"
  by (auto simp: edges_def)

lemma edgesI: "source E p = Some (d, k) \<Longrightarrow> c \<in> set k \<Longrightarrow> (p, c) \<in> edges E"
  by (auto simp: edges_def)

lemma reach_no_source:
  assumes "source E p = None" and "(p, q) \<in> (edges E)\<^sup>*"
  shows "q = p"
  using assms(2,1) by (induction rule: converse_rtrancl_induct) (auto dest: edges_source)

lemma reachApis_no_source:
  assumes "source E p = None"
  shows "reachApis E p = {}"
proof -
  have "False" if "(p, q) \<in> (edges E)\<^sup>*" "source E q = Some (d, k)" for q d k
    using reach_no_source [OF assms that(1)] that(2) assms by simp
  then show ?thesis unfolding reachApis_def by blast
qed

lemma reachApis_direct: "source E p = Some (d, k) \<Longrightarrow> set d \<subseteq> reachApis E p"
  by (auto simp: reachApis_def)

lemma reachApis_child: "(p, c) \<in> (edges E)\<^sup>* \<Longrightarrow> reachApis E c \<subseteq> reachApis E p"
  by (auto simp: reachApis_def intro: rtrancl_trans)

lemma reachApis_source:
  assumes "source E p = Some (d, k)"
  shows "reachApis E p = set d \<union> (\<Union>c \<in> set k. reachApis E c)"
proof
  show "reachApis E p \<subseteq> set d \<union> (\<Union>c \<in> set k. reachApis E c)"
  proof
    fix api
    assume "api \<in> reachApis E p"
    then obtain q dq kq where q: "(p, q) \<in> (edges E)\<^sup>*" "source E q = Some (dq, kq)" "api \<in> set dq"
      by (auto simp: reachApis_def)
    from q(1) show "api \<in> set d \<union> (\<Union>c \<in> set k. reachApis E c)"
    proof (cases rule: converse_rtranclE)
      case base
      with q assms show ?thesis by simp
    next
      case (step c)
      from step(1) assms have "c \<in> set k" by (auto simp: edges_def)
      moreover from step(2) q have "api \<in> reachApis E c" by (auto simp: reachApis_def)
      ultimately show ?thesis by blast
    qed
  qed
next
  show "set d \<union> (\<Union>c \<in> set k. reachApis E c) \<subseteq> reachApis E p"
    using reachApis_direct [OF assms] reachApis_child [of p _ E] edgesI [OF assms]
    by (meson UN_least Un_least r_into_rtrancl)
qed

lemma acyclicFrom_step:
  "acyclicFrom E p \<Longrightarrow> (p, c) \<in> (edges E)\<^sup>* \<Longrightarrow> acyclicFrom E c"
  unfolding acyclicFrom_def by (meson rtrancl_trans)

lemma acyclicFrom_self: "acyclicFrom E p \<Longrightarrow> (p, p) \<notin> (edges E)\<^sup>+"
  unfolding acyclicFrom_def by blast

lemma onPath_acyclic:
  assumes "onPath E v st p" and "acyclicFrom E p"
  shows "p \<notin> v" and "p \<in> processingStack st \<Longrightarrow> map_of (disk E) p = None"
  using assms acyclicFrom_self [OF assms(2)] unfolding onPath_def by blast+

section \<open>Complete lists for files without cycles\<close>

lemma raises_no_source: "raises E p \<Longrightarrow> source E p = None"
  by (auto simp: raises_def source_def split: option.splits sum.splits)

lemma missing_no_source: "map_of (disk E) p = None \<Longrightarrow> source E p = None"
  by (simp add: source_def)

lemma cacheComplete_frame:
  "cacheComplete E (st\<lparr>processingStack := s\<rparr>) = cacheComplete E st"
  "cacheComplete E (st\<lparr>reads := r\<rparr>) = cacheComplete E st"
  by (simp_all add: cacheComplete_def)

lemma onPath_frame:
  "onPath E v (st\<lparr>reads := r\<rparr>) p = onPath E v st p"
  by (simp add: onPath_def)

lemma walk_dom_mono:
  "q \<in> dom (componentCache st) \<Longrightarrow> q \<in> dom (componentCache (snd (extractApisFromComponentWithConfig E p v st)))"
  "q \<in> dom (componentCache st) \<Longrightarrow> q \<in> dom (componentCache (snd (walkImports E cs v a st)))"
  using walk_cache_mono [of st q _ E] by (auto simp: dom_def)

lemma onPath_after_walk:
  assumes "onPath E v st c"
  shows "onPath E v (snd (extractApisFromComponentWithConfig E p v' st)) c"
  unfolding onPath_def
proof (intro allI impI)
  fix q
  assume "q \<in> v \<or> (q \<in> processingStack (snd (extractApisFromComponentWithConfig E p v' st)) \<and>
            map_of (disk E) q \<noteq> None)"
  then have "q \<in> v \<or> (q \<in> processingStack st \<and> map_of (disk E) q \<noteq> None)"
    using walk_stack(1) [of st E p v'] by auto
  with assms show "(q, c) \<in> (edges E)\<^sup>+" unfolding onPath_def by blast
qed

lemma reach_from_source:
  assumes "source E p = Some (d, k)" and "(p, q) \<in> (edges E)\<^sup>*" and "q \<noteq> p"
  shows "\<exists>c \<in> set k. (c, q) \<in> (edges E)\<^sup>*"
  using assms(2)
proof (cases rule: converse_rtranclE)
  case base
  with assms(3) show ?thesis by simp
next
  case (step c)
  from step(1) assms(1) have "c \<in> set k" by (auto simp: edges_def)
  with step(2) show ?thesis by blast
qed

lemma walk_complete:
  "onPath E v st p \<Longrightarrow> cacheComplete E st \<Longrightarrow>
     cacheComplete E (snd (extractApisFromComponentWithConfig E p v st)) \<and>
     (acyclicFrom E p \<longrightarrow>
        reachApis E p \<subseteq> set (fst (extractApisFromComponentWithConfig E p v st)) \<and>
        (source E p \<noteq> None \<longrightarrow>
           p \<in> dom (componentCache (snd (extractApisFromComponentWithConfig E p v st)))))"
  "(\<forall>c \<in> set cs. onPath E v st c) \<Longrightarrow> cacheComplete E st \<Longrightarrow>
     cacheComplete E (snd (walkImports E cs v a st)) \<and>
     (\<forall>c \<in> set cs. acyclicFrom E c \<longrightarrow>
        reachApis E c \<subseteq> set (fst (walkImports E cs v a st)) \<and>
        (source E c \<noteq> None \<longrightarrow> c \<in> dom (componentCache (snd (walkImports E cs v a st)))))"
proof (induction E p v st and E cs v a st rule: walk_induct)
  case (blocked E p v st)
  have "reachApis E p = {} \<and> source E p = None" if "acyclicFrom E p"
  proof -
    from onPath_acyclic [OF blocked.prems(1) that] blocked.hyps
    have "map_of (disk E) p = None" by blast
    then have "source E p = None" by (rule missing_no_source)
    then show ?thesis by (simp add: reachApis_no_source)
  qed
  with blocked show ?case by (auto simp: walk_blocked)
next
  case (cached E p v st r)
  from cached.prems(2) cached.hyps(3) have "acyclicFrom E p \<Longrightarrow> reachApis E p \<subseteq> set r"
    unfolding cacheComplete_def by blast
  with cached show ?case by (auto simp: walk_cached)
next
  case (missing E p v st)
  then show ?case
    by (simp add: walk_missing cacheComplete_frame missing_no_source reachApis_no_source)
next
  case (raises E p v st)
  then show ?case
    by (simp add: walk_raises cacheComplete_frame raises_no_source reachApis_no_source)
next
  case (source E p v st direct children)
  let ?st2 = "st\<lparr>processingStack := insert p (processingStack st), reads := reads st @ [p]\<rparr>"
  let ?r = "walkImports E children (insert p v) direct ?st2"
  let ?st4 = "(snd ?r)\<lparr>componentCache := (componentCache (snd ?r))(p \<mapsto> fst ?r),
                  processingStack := processingStack (snd ?r) - {p}\<rparr>"
  have w: "extractApisFromComponentWithConfig E p v st = (fst ?r, ?st4)"
    using source.hyps by (simp add: walk_source case_prod_beta)
  have path: "\<forall>c \<in> set children. onPath E (insert p v) ?st2 c"
  proof
    fix c
    assume c: "c \<in> set children"
    then have e: "(p, c) \<in> edges E" using source.hyps(4) by (rule edgesI [rotated])
    show "onPath E (insert p v) ?st2 c"
      unfolding onPath_def
    proof (intro allI impI)
      fix q
      assume "q \<in> insert p v \<or> (q \<in> processingStack ?st2 \<and> map_of (disk E) q \<noteq> None)"
      then consider "q = p" | "q \<in> v \<or> (q \<in> processingStack st \<and> map_of (disk E) q \<noteq> None)"
        by auto
      then show "(q, c) \<in> (edges E)\<^sup>+"
      proof cases
        case 1
        with e show ?thesis by blast
      next
        case 2
        with source.prems(1) have "(q, p) \<in> (edges E)\<^sup>+" unfolding onPath_def by blast
        with e show ?thesis by (meson trancl.trancl_into_trancl)
      qed
    qed
  qed
  have "cacheComplete E ?st2" using source.prems(2) by (simp add: cacheComplete_frame)
  from source.IH [OF path this]
  have c3: "cacheComplete E (snd ?r)"
    and kids: "\<And>c. c \<in> set children \<Longrightarrow> acyclicFrom E c \<Longrightarrow>
          reachApis E c \<subseteq> set (fst ?r) \<and> (source E c \<noteq> None \<longrightarrow> c \<in> dom (componentCache (snd ?r)))"
    by blast+
  have direct: "set direct \<subseteq> set (fst ?r)"
    by (subst walkImports_fst) simp
  have own: "reachApis E p \<subseteq> set (fst ?r) \<and>
        (\<forall>q. (p, q) \<in> (edges E)\<^sup>* \<longrightarrow> source E q \<noteq> None \<longrightarrow> q \<in> dom (componentCache ?st4))"
    if acyc: "acyclicFrom E p"
  proof
    have ac: "acyclicFrom E c" if "c \<in> set children" for c
      using acyclicFrom_step [OF acyc] edgesI [OF source.hyps(4) that] by blast
    show "reachApis E p \<subseteq> set (fst ?r)"
      unfolding reachApis_source [OF source.hyps(4)] using direct kids ac by blast
    show "\<forall>q. (p, q) \<in> (edges E)\<^sup>* \<longrightarrow> source E q \<noteq> None \<longrightarrow> q \<in> dom (componentCache ?st4)"
    proof (intro allI impI)
      fix q
      assume q: "(p, q) \<in> (edges E)\<^sup>*" "source E q \<noteq> None"
      show "q \<in> dom (componentCache ?st4)"
      proof (cases "q = p")
        case True
        then show ?thesis by simp
      next
        case False
        from reach_from_source [OF source.hyps(4) q(1) False]
        obtain c where c: "c \<in> set children" "(c, q) \<in> (edges E)\<^sup>*" by blast
        have "source E c \<noteq> None"
          using c(2) q(2) by (cases rule: converse_rtranclE) (auto dest: edges_source)
        with kids [OF c(1) ac [OF c(1)]] obtain rc where rc: "componentCache (snd ?r) c = Some rc"
          by auto
        with c3 ac [OF c(1)] c(2) q(2) have "q \<in> dom (componentCache (snd ?r))"
          unfolding cacheComplete_def by blast
        then show ?thesis by auto
      qed
    qed
  qed
  have c4: "cacheComplete E ?st4"
    unfolding cacheComplete_def
  proof (intro allI impI)
    fix q rq
    assume q: "componentCache ?st4 q = Some rq" and aq: "acyclicFrom E q"
    show "reachApis E q \<subseteq> set rq \<and>
          (\<forall>q'. (q, q') \<in> (edges E)\<^sup>* \<longrightarrow> source E q' \<noteq> None \<longrightarrow> q' \<in> dom (componentCache ?st4))"
    proof (cases "q = p")
      case True
      with q have "rq = fst ?r" by simp
      with own [OF aq [unfolded True]] True show ?thesis by simp
    next
      case False
      with q have "componentCache (snd ?r) q = Some rq" by simp
      with c3 aq have "reachApis E q \<subseteq> set rq"
        and "\<And>q'. (q, q') \<in> (edges E)\<^sup>* \<Longrightarrow> source E q' \<noteq> None \<Longrightarrow> q' \<in> dom (componentCache (snd ?r))"
        unfolding cacheComplete_def by blast+
      then show ?thesis by auto
    qed
  qed
  have pd: "p \<in> dom (componentCache ?st4)" by simp
  show ?case
    unfolding w fst_conv snd_conv
  proof (intro conjI impI)
    show "cacheComplete E ?st4" by (rule c4)
    show "reachApis E p \<subseteq> set (fst ?r)" if "acyclicFrom E p" using own [OF that] by blast
    show "p \<in> dom (componentCache ?st4)" by (rule pd)
  qed
next
  case (nil E v a st)
  then show ?case by simp
next
  case (cons E c cs v a st)
  let ?w = "extractApisFromComponentWithConfig E c v st"
  let ?l = "walkImports E cs v (a @ fst ?w) (snd ?w)"
  have l: "walkImports E (c # cs) v a st = ?l" by (rule walkImports_Cons)
  from cons.prems have pc: "onPath E v st c" by simp
  from cons.IH(1) [OF pc cons.prems(2)]
  have c1: "cacheComplete E (snd ?w)"
    and head: "acyclicFrom E c \<Longrightarrow> reachApis E c \<subseteq> set (fst ?w) \<and>
          (source E c \<noteq> None \<longrightarrow> c \<in> dom (componentCache (snd ?w)))"
    by blast+
  have "\<forall>c' \<in> set cs. onPath E v (snd ?w) c'"
    using cons.prems(1) by (simp add: onPath_after_walk)
  from cons.IH(2) [OF this c1]
  have c2: "cacheComplete E (snd ?l)"
    and tail: "\<And>c'. c' \<in> set cs \<Longrightarrow> acyclicFrom E c' \<Longrightarrow> reachApis E c' \<subseteq> set (fst ?l) \<and>
          (source E c' \<noteq> None \<longrightarrow> c' \<in> dom (componentCache (snd ?l)))"
    by blast+
  have sub: "set (fst ?w) \<subseteq> set (fst ?l)"
    by (subst walkImports_fst) auto
  have head': "reachApis E c \<subseteq> set (fst ?l) \<and>
          (source E c \<noteq> None \<longrightarrow> c \<in> dom (componentCache (snd ?l)))" if "acyclicFrom E c"
    using head [OF that] sub walk_dom_mono(2) [of c "snd ?w" E cs v "a @ fst ?w"] by blast
  show ?case
    unfolding l using c2 head' tail by auto
qed

section \<open>Reads, and the states of a pass\<close>

lemma walk_stack_grows:
  "q \<in> processingStack st \<Longrightarrow> q \<in> processingStack (snd (walkImports E cs v a st))"
  using walk_stack(2) [of st E cs v a] by auto

lemma walk_dom_source:
  assumes "p \<notin> v" "p \<notin> processingStack st" "componentCache st p = None" "source E p = Some (direct, children)"
  shows "componentCache (snd (extractApisFromComponentWithConfig E p v st)) =
           (componentCache (snd (walkImports E children (insert p v) direct
              (st\<lparr>processingStack := insert p (processingStack st), reads := reads st @ [p]\<rparr>))))
           (p \<mapsto> fst (walkImports E children (insert p v) direct
              (st\<lparr>processingStack := insert p (processingStack st), reads := reads st @ [p]\<rparr>)))"
    and "processingStack (snd (extractApisFromComponentWithConfig E p v st)) =
           processingStack (snd (walkImports E children (insert p v) direct
              (st\<lparr>processingStack := insert p (processingStack st), reads := reads st @ [p]\<rparr>))) - {p}"
    and "reads (snd (extractApisFromComponentWithConfig E p v st)) =
           reads (snd (walkImports E children (insert p v) direct
              (st\<lparr>processingStack := insert p (processingStack st), reads := reads st @ [p]\<rparr>)))"
  using assms by (simp_all add: walk_source_snd Let_def)

lemma walk_readsOnce:
  "readsOnce E st \<Longrightarrow> readsOnce E (snd (extractApisFromComponentWithConfig E p v st))"
  "readsOnce E st \<Longrightarrow> readsOnce E (snd (walkImports E cs v a st))"
proof (induction E p v st and E cs v a st rule: walk_induct)
  case (blocked E p v st)
  then show ?case by (simp add: walk_blocked)
next
  case (cached E p v st r)
  then show ?case by (simp add: walk_cached)
next
  case (missing E p v st)
  have "source E p = None" using missing.hyps(4) by (rule missing_no_source)
  with missing.prems show ?case
    unfolding walk_missing [OF missing.hyps] readsOnce_def by auto
next
  case (raises E p v st)
  have "source E p = None" using raises.hyps(4) by (rule raises_no_source)
  with raises.prems show ?case
    unfolding walk_raises [OF raises.hyps] readsOnce_def by auto
next
  case (source E p v st direct children)
  let ?st2 = "st\<lparr>processingStack := insert p (processingStack st), reads := reads st @ [p]\<rparr>"
  let ?r = "walkImports E children (insert p v) direct ?st2"
  have zero: "count_list (reads st) p = 0"
    using source.prems source.hyps unfolding readsOnce_def by (auto simp: dom_def)
  have "readsOnce E ?st2"
    unfolding readsOnce_def
  proof (intro allI impI)
    fix q
    assume q: "source E q \<noteq> None"
    show "count_list (reads ?st2) q =
            (if q \<in> dom (componentCache ?st2) \<or> q \<in> processingStack ?st2 then 1 else 0)"
    proof (cases "q = p")
      case True
      with zero show ?thesis by simp
    next
      case False
      with source.prems q show ?thesis unfolding readsOnce_def by simp
    qed
  qed
  then have r3: "readsOnce E (snd ?r)" by (rule source.IH)
  have pin: "p \<in> processingStack (snd ?r)"
    by (rule walk_stack_grows) simp
  show ?case
    unfolding readsOnce_def walk_dom_source [OF source.hyps]
  proof (intro allI impI)
    fix q
    assume q: "source E q \<noteq> None"
    from r3 q have c: "count_list (reads (snd ?r)) q =
        (if q \<in> dom (componentCache (snd ?r)) \<or> q \<in> processingStack (snd ?r) then 1 else 0)"
      unfolding readsOnce_def by blast
    show "count_list (reads (snd ?r)) q =
           (if q \<in> dom ((componentCache (snd ?r))(p \<mapsto> fst ?r)) \<or> q \<in> processingStack (snd ?r) - {p}
            then 1 else 0)"
    proof (cases "q = p")
      case True
      with c pin show ?thesis by simp
    next
      case False
      with c show ?thesis by simp
    qed
  qed
next
  case (nil E v a st)
  then show ?case by simp
next
  case (cons E c cs v a st)
  then show ?case by (simp add: walkImports_Cons)
qed

lemma walk_stackIsMissing:
  "stackIsMissing E st \<Longrightarrow> stackIsMissing E (snd (extractApisFromComponentWithConfig E p v st))"
  using walk_stack(1) [of st E p v] unfolding stackIsMissing_def by auto

lemma onPath_top: "stackIsMissing E st \<Longrightarrow> onPath E {} st p"
  unfolding stackIsMissing_def onPath_def by auto

lemma passInv_walk:
  assumes "passInv E st"
  shows "passInv E (snd (extractApisFromComponentWithConfig E p {} st))"
  using assms walk_complete(1) [OF onPath_top, of E st p]
  unfolding passInv_def
  by (simp add: walk_cacheSound walk_readsOnce walk_stackIsMissing)

lemma passInv_fresh: "passInv E fresh"
  by (simp add: passInv_def fresh_def cacheSound_def cacheComplete_def readsOnce_def stackIsMissing_def)

lemma passInv_frame:
  assumes "componentCache st' = componentCache st" and "processingStack st' = processingStack st"
    and "reads st' = reads st"
  shows "passInv E st' = passInv E st"
  by (simp add: passInv_def cacheSound_def cacheComplete_def readsOnce_def stackIsMissing_def assms)

lemma passInv_record: "passInv E (recordApis cat page apis st) = passInv E st"
  by (rule passInv_frame) (simp_all add: record_frame)

lemma processFile_cache:
  "componentCache (processFileWithConfig viewsDir E f st) =
     (case entryPage viewsDir E f of
        None \<Rightarrow> componentCache st
      | Some cp \<Rightarrow> componentCache (snd (extractApisFromComponentWithConfig E f {} st)))"
proof (cases "entryPage viewsDir E f")
  case None
  then show ?thesis by (simp add: processFile_none)
next
  case (Some cp)
  obtain cat page where "cp = (cat, page)" by (cases cp)
  with Some show ?thesis by (simp add: processFile_entry record_frame)
qed

lemma processFile_reads:
  "reads (processFileWithConfig viewsDir E f st) =
     (case entryPage viewsDir E f of
        None \<Rightarrow> reads st
      | Some cp \<Rightarrow> reads (snd (extractApisFromComponentWithConfig E f {} st)))"
proof (cases "entryPage viewsDir E f")
  case None
  then show ?thesis by (simp add: processFile_none)
next
  case (Some cp)
  obtain cat page where "cp = (cat, page)" by (cases cp)
  with Some show ?thesis by (simp add: processFile_entry record_frame)
qed

lemma passInv_processFile:
  "passInv E st \<Longrightarrow> passInv E (processFileWithConfig viewsDir E f st)"
proof (cases "entryPage viewsDir E f")
  case None
  then show "passInv E st \<Longrightarrow> ?thesis" by (simp add: processFile_none)
next
  case (Some cp)
  obtain cat page where "cp = (cat, page)" by (cases cp)
  with Some show "passInv E st \<Longrightarrow> ?thesis"
    by (simp add: processFile_entry passInv_record passInv_walk)
qed

lemma passInv_processFiles:
  "passInv E st \<Longrightarrow> passInv E (processFiles viewsDir E files st)"
  unfolding processFiles_def
  by (induction files arbitrary: st) (simp_all add: passInv_processFile)

lemma processFiles_append:
  "processFiles viewsDir E (xs @ ys) st = processFiles viewsDir E ys (processFiles viewsDir E xs st)"
  by (simp add: processFiles_def)

lemma processFiles_Cons:
  "processFiles viewsDir E (f # fs) st = processFiles viewsDir E fs (processFileWithConfig viewsDir E f st)"
  by (simp add: processFiles_def)

lemma processFile_cache_mono:
  "componentCache st q = Some r \<Longrightarrow> componentCache (processFileWithConfig viewsDir E f st) q = Some r"
  by (simp add: processFile_cache walk_cache_mono split: option.splits)

lemma processFiles_cache_mono:
  "componentCache st q = Some r \<Longrightarrow> componentCache (processFiles viewsDir E files st) q = Some r"
  unfolding processFiles_def
  by (induction files arbitrary: st) (simp_all add: processFile_cache_mono)

lemma entry_walk:
  assumes inv: "passInv E st" and ac: "acyclicFrom E e" and reach: "(e, C) \<in> (edges E)\<^sup>+"
    and C: "source E C \<noteq> None"
  shows "reachApis E C \<subseteq> set (fst (extractApisFromComponentWithConfig E e {} st))"
    and "C \<in> dom (componentCache (snd (extractApisFromComponentWithConfig E e {} st)))"
proof -
  let ?w = "extractApisFromComponentWithConfig E e {} st"
  from inv have "stackIsMissing E st" "cacheComplete E st" by (simp_all add: passInv_def)
  from walk_complete(1) [OF onPath_top [OF this(1)] this(2), of e] ac
  have cc: "cacheComplete E (snd ?w)" and res: "reachApis E e \<subseteq> set (fst ?w)"
    and dom: "source E e \<noteq> None \<Longrightarrow> e \<in> dom (componentCache (snd ?w))"
    by blast+
  from reach have "source E e \<noteq> None"
    by (cases rule: converse_tranclE) (auto dest: edges_source)
  from dom [OF this] obtain r where "componentCache (snd ?w) e = Some r" by auto
  with cc ac reach C show "C \<in> dom (componentCache (snd ?w))"
    unfolding cacheComplete_def by (meson trancl_into_rtrancl)
  from reach have "(e, C) \<in> (edges E)\<^sup>*" by simp
  from reachApis_child [OF this] res show "reachApis E C \<subseteq> set (fst ?w)" by blast
qed

section \<open>The scenarios of the walk, evaluated\<close>

lemmas paths = goodsPage_def orderPage_def pricePart_def

lemma goodsPage_entry:
  "viewsMatch ''src/views'' E ''/p/src/views/goods/index.vue'' = Inr (Some ''goods/index.vue'')"
  by (simp add: matching patterns)

lemma orderPage_entry:
  "viewsMatch ''src/views'' E ''/p/src/views/order/index.vue'' = Inr (Some ''order/index.vue'')"
  by (simp add: matching patterns)

lemma goods_category: "categoryAndPage ''goods/index.vue'' = (''goods'', ''goods'')"
  by (simp add: categoryAndPage_def)

lemma order_category: "categoryAndPage ''order/index.vue'' = (''order'', ''order'')"
  by (simp add: categoryAndPage_def)

lemma goodsPage_entryPage: "entryPage ''src/views'' E goodsPage = Some (''goods'', ''goods'')"
  by (simp add: entryPage_def goodsPage_def goodsPage_entry goods_category)

lemma orderPage_entryPage: "entryPage ''src/views'' E orderPage = Some (''order'', ''order'')"
  by (simp add: entryPage_def orderPage_def orderPage_entry order_category)

lemmas walking = processFiles_def processFileWithConfig_def
  goodsPage_entry orderPage_entry goods_category order_category
  extractApisFromComponentWithConfig.simps walkImports.simps fresh_def recording insert_Diff_if

lemma cycle_sources:
  "source cycleEnv orderPage =
     Some ([\<lparr>url = ''/order'', method = ''UNKNOWN'', functionName = None\<rparr>], [goodsPage])"
  "source cycleEnv goodsPage =
     Some ([\<lparr>url = ''/goods'', method = ''UNKNOWN'', functionName = None\<rparr>], [orderPage])"
  by (simp_all add: source_def cycleEnv_def paths detection patterns)

lemma cycle_first:
  "fst (extractApisFromComponentWithConfig cycleEnv orderPage {} fresh) =
     [\<lparr>url = ''/order'', method = ''UNKNOWN'', functionName = None\<rparr>,
      \<lparr>url = ''/goods'', method = ''UNKNOWN'', functionName = None\<rparr>]"
  by (simp add: walking cycleEnv_def paths detection patterns del: exec.simps)

lemma cycle_second:
  "viewApiData (processFiles ''src/views'' cycleEnv [goodsPage, orderPage] fresh) =
     [(''goods'', [(''goods'', [\<lparr>url = ''/goods'', method = ''UNKNOWN'', functionName = None\<rparr>,
                               \<lparr>url = ''/order'', method = ''UNKNOWN'', functionName = None\<rparr>])]),
      (''order'', [(''order'', [\<lparr>url = ''/order'', method = ''UNKNOWN'', functionName = None\<rparr>])])]"
  by (simp add: walking cycleEnv_def paths detection patterns del: exec.simps)

lemma cycle_memo:
  "componentCache (processFiles ''src/views'' cycleEnv [goodsPage] fresh) orderPage =
     Some [\<lparr>url = ''/order'', method = ''UNKNOWN'', functionName = None\<rparr>]"
  by (simp add: walking cycleEnv_def paths detection patterns del: exec.simps)

lemma shared_reads:
  "reads (processFiles ''src/views'' sharedEnv [goodsPage, orderPage] fresh) =
     [goodsPage, pricePart, orderPage]"
  by (simp add: walking sharedEnv_def paths detection patterns del: exec.simps)

lemma brokenShared_reads:
  "reads (processFiles ''src/views'' brokenSharedEnv [goodsPage, orderPage] fresh) =
     [goodsPage, pricePart, orderPage, pricePart]"
  by (simp add: walking brokenSharedEnv_def paths detection patterns del: exec.simps)

lemma acyclic_by_rank:
  fixes rank :: "path \<Rightarrow> nat"
  assumes "\<And>p q. (p, q) \<in> edges E \<Longrightarrow> rank q < rank p"
  shows "acyclicFrom E p"
proof -
  have "rank q < rank p'" if "(p', q) \<in> (edges E)\<^sup>+" for p' q
    using that by (induction rule: trancl_induct) (auto dest: assms)
  then have "(q, q) \<notin> (edges E)\<^sup>+" for q by blast
  then show ?thesis by (simp add: acyclicFrom_def)
qed

lemma shared_edges: "(p, q) \<in> edges sharedEnv \<Longrightarrow> q = pricePart \<and> p \<noteq> pricePart"
  by (auto simp: edges_def source_def sharedEnv_def tableEnv_def paths split: option.splits sum.splits if_splits)

lemma shared_acyclic: "acyclicFrom sharedEnv p"
  by (rule acyclic_by_rank [where rank = "\<lambda>p. if p = pricePart then 0 else 1"])
     (auto dest: shared_edges)

lemma shared_sources:
  "source sharedEnv pricePart =
     Some ([\<lparr>url = ''/price'', method = ''UNKNOWN'', functionName = None\<rparr>], [])"
  "source sharedEnv goodsPage =
     Some ([\<lparr>url = ''/goods'', method = ''UNKNOWN'', functionName = None\<rparr>], [pricePart])"
  "source sharedEnv orderPage =
     Some ([\<lparr>url = ''/order'', method = ''UNKNOWN'', functionName = None\<rparr>], [pricePart])"
  by (simp_all add: source_def sharedEnv_def paths detection patterns)

section \<open>Inherited names and array indices, evaluated\<close>

lemmas evaluating = processFiles_def processFileWithConfig_def matching
  categoryAndPage_def stripVue_def
  extractApisFromComponentWithConfig.simps walkImports.simps fresh_def recording insert_Diff_if
  decimal_def

text \<open>
  The page \<^verbatim>\<open>constructor/index.vue\<close> has the category and the page \<^verbatim>\<open>constructor\<close>. The read
  \<^verbatim>\<open>viewApiData['constructor']\<close> gives the function \<^verbatim>\<open>Object\<close> and
  \<^verbatim>\<open>Object['constructor']\<close> the function \<^verbatim>\<open>Function\<close>, which has no \<^verbatim>\<open>add\<close>: the walk memoizes
  the page, the \<^verbatim>\<open>TypeError\<close> is caught, and nothing is recorded.
\<close>

lemma constructor_entry:
  "entryPage ''src/views'' constructorEnv constructorPage = Some (''constructor'', ''constructor'')"
  by (simp add: entryPage_def matching categoryAndPage_def constructorPage_def patterns)

lemma constructor_pass:
  "processFiles ''src/views'' constructorEnv [constructorPage] fresh =
     fresh\<lparr>componentCache :=
             [constructorPage \<mapsto> [\<lparr>url = ''/c'', method = ''UNKNOWN'', functionName = None\<rparr>]],
           reads := [constructorPage]\<rparr>"
  by (simp add: evaluating constructorEnv_def constructorPage_def detection patterns)

lemma constructor_document:
  "buildStart ''src/views'' constructorEnv lc [constructorPage] = Inr (JObj [])"
  unfolding buildStart_def constructor_pass
  by (simp add: generateApiFile_def document_def fresh_def)

text \<open>
  The page \<^verbatim>\<open>__proto__.vue\<close> has the category \<^verbatim>\<open>__proto__\<close> and the page \<^verbatim>\<open>/\<close>: its \<^verbatim>\<open>Set\<close> is
  stored on \<^verbatim>\<open>Object.prototype\<close> under \<^verbatim>\<open>/\<close>. The page \<^verbatim>\<open>about.vue\<close>, processed next, gets
  its category, and for its page \<^verbatim>\<open>/\<close> the \<^verbatim>\<open>Set\<close> on \<^verbatim>\<open>Object.prototype\<close>: the category is
  written without a page.
\<close>

lemma proto_pass:
  "viewApiData (processFiles ''src/views'' protoEnv
       [''/p/src/views/__proto__.vue'', ''/p/src/views/about.vue''] fresh) = [(''about'', [])] \<and>
   objectPrototype (processFiles ''src/views'' protoEnv
       [''/p/src/views/__proto__.vue'', ''/p/src/views/about.vue''] fresh) = {''/''}"
  by (simp add: evaluating protoEnv_def detection patterns)

lemma proto_document:
  "buildStart ''src/views'' protoEnv lc
       [''/p/src/views/__proto__.vue'', ''/p/src/views/about.vue''] =
     Inr (JObj [(''about'', JObj [])])"
  by (simp add: writing proto_pass)

text \<open>The categories \<^verbatim>\<open>b\<close>, \<^verbatim>\<open>10\<close> and \<^verbatim>\<open>9\<close>, created in this order, are written as 9, 10, b.\<close>

lemma numbers_pass:
  "viewApiData (processFiles ''src/views'' numbersEnv
       [''/p/src/views/b/index.vue'', ''/p/src/views/10/index.vue'', ''/p/src/views/9/index.vue'']
       fresh) =
     [(''9'', [(''9'', [\<lparr>url = ''/nine'', method = ''UNKNOWN'', functionName = None\<rparr>])]),
      (''10'', [(''10'', [\<lparr>url = ''/ten'', method = ''UNKNOWN'', functionName = None\<rparr>])]),
      (''b'', [(''b'', [\<lparr>url = ''/b'', method = ''UNKNOWN'', functionName = None\<rparr>])])]"
  by (simp add: evaluating numbersEnv_def detection patterns)

lemma numbers_document:
  "buildStart ''src/views'' numbersEnv lc
       [''/p/src/views/b/index.vue'', ''/p/src/views/10/index.vue'', ''/p/src/views/9/index.vue''] =
     Inr (JObj [(''9'', JArr [JObj [(''url'', JStr ''/nine''), (''method'', JStr ''UNKNOWN'')]]),
                (''10'', JArr [JObj [(''url'', JStr ''/ten''), (''method'', JStr ''UNKNOWN'')]]),
                (''b'', JArr [JObj [(''url'', JStr ''/b''), (''method'', JStr ''UNKNOWN'')]])])"
  by (simp add: writing numbers_pass)

section \<open>A file that cannot be read or analysed\<close>

theorem failed_read_is_not_memoized_counterexample:
  "componentCache (snd (extractApisFromComponentWithConfig brokenEnv ''/p/src/views/a.vue'' {} fresh))
     ''/p/src/views/a.vue'' \<noteq> Some [] \<and>
   reads (snd (extractApisFromComponentWithConfig brokenEnv ''/p/src/views/a.vue'' {}
           (snd (extractApisFromComponentWithConfig brokenEnv ''/p/src/views/a.vue'' {} fresh))))
     = [''/p/src/views/a.vue'', ''/p/src/views/a.vue'']"
  by (simp add: extractApisFromComponentWithConfig.simps brokenEnv_def tableEnv_def fresh_def)

text \<open>
  C2, amended. For every file whose read or per-file detection raises, a walk that
  reaches it (the path is neither visited, nor on the processing stack, nor memoized)
  returns the empty list, records the read and changes nothing else: the memoization
  map gets no entry and the processing stack is as before. A later walk of the same path
  therefore reads the file again, with the same result.
\<close>

theorem failed_file_is_read_again:
  assumes "raises E p" and "p \<notin> v" and "p \<notin> processingStack st" and "componentCache st p = None"
  shows "extractApisFromComponentWithConfig E p v st = ([], st\<lparr>reads := reads st @ [p]\<rparr>) \<and>
         extractApisFromComponentWithConfig E p v (st\<lparr>reads := reads st @ [p]\<rparr>)
           = ([], st\<lparr>reads := reads st @ [p, p]\<rparr>)"
  using assms by (simp add: walk_raises)

theorem failed_file_is_read_again_witness:
  "raises brokenEnv ''/p/src/views/a.vue'' \<and>
   extractApisFromComponentWithConfig brokenEnv ''/p/src/views/a.vue'' {} fresh
     = ([], fresh\<lparr>reads := [''/p/src/views/a.vue'']\<rparr>) \<and>
   extractApisFromComponentWithConfig brokenEnv ''/p/src/views/a.vue'' {}
       (fresh\<lparr>reads := [''/p/src/views/a.vue'']\<rparr>)
     = ([], fresh\<lparr>reads := [''/p/src/views/a.vue'', ''/p/src/views/a.vue'']\<rparr>)"
proof -
  have r: "raises brokenEnv ''/p/src/views/a.vue''"
    by (simp add: raises_def brokenEnv_def tableEnv_def)
  show ?thesis
    using r failed_file_is_read_again [OF r, of "{}" fresh] by (simp add: fresh_def)
qed

section \<open>The processing stack after a walk\<close>

text \<open>
  C6, at a failing input. The page \<^verbatim>\<open>a.vue\<close> imports \<^verbatim>\<open>gone.vue\<close>, which does not exist.
  The walk of the page from the cleared state returns the page's descriptor and
  memoizes it, and the processing stack, empty before, holds \<^verbatim>\<open>gone.vue\<close> afterwards:
  the early \<^verbatim>\<open>return []\<close> for a missing file skips \<^verbatim>\<open>processingStack.delete\<close>.
\<close>

theorem missing_import_stays_on_processingStack:
  "extractApisFromComponentWithConfig goneEnv ''/p/src/views/a.vue'' {} fresh =
     ([\<lparr>url = ''/a'', method = ''UNKNOWN'', functionName = None\<rparr>],
      \<lparr>viewApiData = [],
       componentCache =
         [''/p/src/views/a.vue'' \<mapsto> [\<lparr>url = ''/a'', method = ''UNKNOWN'', functionName = None\<rparr>]],
       processingStack = {''/p/src/views/gone.vue''},
       reads = [''/p/src/views/a.vue''],
       objectPrototype = {}\<rparr>)"
  by (simp add: extractApisFromComponentWithConfig.simps walkImports.simps goneEnv_def fresh_def
      detection patterns insert_Diff_if)

section \<open>Dynamic urls in the catalogue\<close>

text \<open>
  C5, at the scenario of the specification. For the module
  \<^verbatim>\<open>export function getUser() { request({ url: '/user/' + id, method: 'GET' }) }\<close> the
  catalogue entry has the url \<^verbatim>\<open>/user/\<close>, not \<^verbatim>\<open>/user/{id}\<close>: the url pattern captures
  the text between the quotes, so the concatenation is never in the text that the
  replacement of \<^verbatim>\<open>+ identifier\<close> by \<^verbatim>\<open>/{id}\<close> sees.
\<close>

theorem getUser_url_has_no_placeholder:
  "analyzeApiFile (Inr getUserModule) =
     [\<lparr>url = ''/user/'', method = ''GET'', functionName = Some ''getUser''\<rparr>]"
  by (rule analyzeApiFile_getUserModule)

section \<open>Pages without endpoints\<close>

text \<open>
  C10. For every file whose recursive walk yields no endpoint descriptor,
  \<^verbatim>\<open>processFileWithConfig\<close> leaves \<^verbatim>\<open>viewApiData\<close> as it was: no category and no page is
  created for the file, and the document generated afterwards is the one that would have
  been generated without the file.
\<close>

theorem page_without_apis_adds_nothing:
  assumes "fst (extractApisFromComponentWithConfig E filePath {} st) = []"
  shows "viewApiData (processFileWithConfig viewsDir E filePath st) = viewApiData st \<and>
         generateApiFile lc (processFileWithConfig viewsDir E filePath st) = generateApiFile lc st"
proof -
  have "viewApiData (processFileWithConfig viewsDir E filePath st) = viewApiData st"
    using assms
    by (simp add: processFileWithConfig_def case_prod_beta Let_def walk_frame
        split: sum.splits option.splits)
  then show ?thesis by (simp add: generateApiFile_def)
qed

theorem page_without_apis_adds_nothing_witness:
  "fst (extractApisFromComponentWithConfig plainEnv ''/p/src/views/about.vue'' {} fresh) = [] \<and>
   viewApiData (processFileWithConfig ''src/views'' plainEnv ''/p/src/views/about.vue'' fresh) = [] \<and>
   generateApiFile (\<lambda>a b. 0) (processFileWithConfig ''src/views'' plainEnv ''/p/src/views/about.vue'' fresh)
     = Inr (JObj [])"
proof -
  have e: "fst (extractApisFromComponentWithConfig plainEnv ''/p/src/views/about.vue'' {} fresh) = []"
    by (simp add: extractApisFromComponentWithConfig.simps plainEnv_def fresh_def detection patterns)
  show ?thesis
    using e page_without_apis_adds_nothing [OF e, of "''src/views''" "\<lambda>a b. 0"]
    by (simp add: fresh_def generateApiFile_def document_def)
qed


section \<open>The order of an output array\<close>

theorem equal_urls_not_sorted_by_method_counterexample:
  "outputData codeUnitCompare (viewApiData (processFiles ''src/views'' mixedEnv [userPage] fresh)) =
     Inr [(''user'', Flat [\<lparr>url = ''/user/'', method = ''UNKNOWN'', functionName = None\<rparr>,
                          \<lparr>url = ''/user/'', method = ''GET'', functionName = Some ''getUser''\<rparr>])] \<and>
   \<not> sorted_wrt byUrlThenMethod [\<lparr>url = ''/user/'', method = ''UNKNOWN'', functionName = None\<rparr>,
                          \<lparr>url = ''/user/'', method = ''GET'', functionName = Some ''getUser''\<rparr>]"
  by (simp add: writing mixed_view codeUnitCompare_def byUrlThenMethod_def)

text \<open>
  C3, amended. For a \<^verbatim>\<open>localeCompare\<close> that is total and transitive, every array of the
  generated output, flat or nested, is sorted non-decreasing by url under
  \<^verbatim>\<open>localeCompare\<close>. The array holds the members of one recorded \<^verbatim>\<open>Set\<close>, and the
  entries with one and the same url stand in the order in which they were inserted into
  that \<^verbatim>\<open>Set\<close>: the method plays no part in the order.
\<close>

theorem output_arrays_sorted_by_url:
  assumes "consistent lc" and "outputData lc (viewApiData st) = Inr out" and "arr \<in> set (arrays out)"
  shows "sorted_wrt (\<lambda>a b. lc (url a) (url b) \<le> 0) arr \<and>
         (\<exists>members \<in> set (memberLists (viewApiData st)).
            set arr = set members \<and>
            (\<forall>u. filter (\<lambda>a. url a = u) arr = filter (\<lambda>a. url a = u) members))"
proof -
  from outputData_arrays [OF assms(2,3)] obtain members
    where m: "members \<in> set (memberLists (viewApiData st))" "arr = sortApis lc members"
    by blast
  show ?thesis
    using m assms(1) by (auto simp: sorted_sortApis filter_sortApis set_sortApis)
qed

theorem output_arrays_sorted_by_url_witness:
  "consistent codeUnitCompare \<and>
   outputData codeUnitCompare (viewApiData (processFiles ''src/views'' unsortedEnv [userPage] fresh)) =
     Inr [(''user'', Flat [\<lparr>url = ''/a'', method = ''UNKNOWN'', functionName = None\<rparr>,
                          \<lparr>url = ''/b'', method = ''UNKNOWN'', functionName = None\<rparr>])] \<and>
   sorted_wrt (\<lambda>a b. codeUnitCompare (url a) (url b) \<le> 0)
     [\<lparr>url = ''/a'', method = ''UNKNOWN'', functionName = None\<rparr>,
      \<lparr>url = ''/b'', method = ''UNKNOWN'', functionName = None\<rparr>]"
proof -
  let ?out = "[(''user'', Flat [\<lparr>url = ''/a'', method = ''UNKNOWN'', functionName = None\<rparr>,
                          \<lparr>url = ''/b'', method = ''UNKNOWN'', functionName = None\<rparr>])]"
  have h2: "outputData codeUnitCompare
              (viewApiData (processFiles ''src/views'' unsortedEnv [userPage] fresh)) = Inr ?out"
    by (simp add: writing unsorted_view codeUnitCompare_def)
  have h3: "[\<lparr>url = ''/a'', method = ''UNKNOWN'', functionName = None\<rparr>,
             \<lparr>url = ''/b'', method = ''UNKNOWN'', functionName = None\<rparr>] \<in> set (arrays ?out)"
    by (simp add: arrays_def)
  from output_arrays_sorted_by_url [OF consistent_codeUnitCompare h2 h3] consistent_codeUnitCompare h2
  show ?thesis by blast
qed

section \<open>The fields of a descriptor in the document\<close>

text \<open>
  C4, at a failing input. A page that calls \<^verbatim>\<open>getUser\<close> of the catalogue gets the
  catalogue's descriptor, which carries \<^verbatim>\<open>functionName\<close>; \<^verbatim>\<open>JSON.stringify\<close> writes the
  field into the member of the \<^verbatim>\<open>Set\<close>, \<^verbatim>\<open>JSON.parse\<close> reads it back, and the document
  has it beside url and method.
\<close>

theorem functionName_is_written_to_the_document:
  "buildStart ''src/views'' catalogEnv lc [userPage] =
     Inr (JObj [(''user'', JArr [JObj [(''url'', JStr ''/user/''), (''method'', JStr ''GET''),
                                      (''functionName'', JStr ''getUser'')]])])"
  by (simp add: writing catalog_view)

section \<open>Deduplication\<close>

theorem same_url_and_method_twice_counterexample:
  "outputData codeUnitCompare (viewApiData (processFiles ''src/views'' twoEnv [userPage] fresh)) =
     Inr [(''user'', Flat [\<lparr>url = ''/x'', method = ''GET'', functionName = Some ''getA''\<rparr>,
                          \<lparr>url = ''/x'', method = ''GET'', functionName = Some ''getB''\<rparr>])] \<and>
   length (filter (\<lambda>a. url a = ''/x'' \<and> method a = ''GET'')
     [\<lparr>url = ''/x'', method = ''GET'', functionName = Some ''getA''\<rparr>,
      \<lparr>url = ''/x'', method = ''GET'', functionName = Some ''getB''\<rparr>]) = 2"
  by (simp add: writing two_view codeUnitCompare_def)

text \<open>
  C7, amended. Deduplication equality is structural over url, method and
  declaring-function name. Let an entry page be processed in a pass, at a moment when
  \<^verbatim>\<open>Object.prototype\<close> answers for neither its category nor its page. Then the output
  generated at the end of the pass has an array for the page, and every descriptor the
  walk of the entry returned, however many times and through whatever paths, is in that
  array exactly once; and no array of the output holds the same descriptor (same url,
  method and function name) twice. Two descriptors with the same url and method and
  different function names are two entries.
\<close>

theorem descriptor_appears_once_in_its_page:
  assumes "entryPage viewsDir E f = Some (cat, page)"
    and "st = processFiles viewsDir E before fresh"
    and "\<not> inherited st cat" and "\<not> inherited st page"
    and "api \<in> set (fst (extractApisFromComponentWithConfig E f {} st))"
    and "final = processFiles viewsDir E (before @ f # after) fresh"
  shows "\<exists>out arr. outputData lc (viewApiData final) = Inr out \<and>
           outputArray out cat page = Some arr \<and> count_list arr api = 1 \<and>
           (\<forall>arr' \<in> set (arrays out). distinct arr')"
proof -
  let ?st' = "processFileWithConfig viewsDir E f st"
  have fin: "final = processFiles viewsDir E after ?st'"
    unfolding assms(6) assms(2) by (simp add: processFiles_append processFiles_Cons)
  have "api \<in> set (pageMembers (viewApiData ?st') cat page)"
    using assms(5) by (simp add: pageMembers_entry [OF assms(1,3,4)])
  with pageMembers_processFiles_mono [of ?st' cat page viewsDir E after]
  have mem: "api \<in> set (pageMembers (viewApiData final) cat page)"
    unfolding fin by blast
  have df: "duplicateFree (viewApiData final)"
    unfolding assms(6) by (rule duplicateFree_processFiles [OF duplicateFree_fresh])
  have wk: "wellKeyed (viewApiData final)"
    unfolding assms(6) by (rule wellKeyed_processFiles [OF wellKeyed_fresh])
  let ?members = "pageMembers (viewApiData final) cat page"
  from pageMembers_own [OF mem] obtain pages
    where own: "map_of (viewApiData final) cat = Some pages" "map_of pages page = Some ?members"
    by blast
  from output_page [OF wk own] obtain out where out: "outputData lc (viewApiData final) = Inr out"
    "outputArray out cat page = Some (sortApis lc ?members)" by blast
  have "count_list ?members api = 1"
    using distinct_pageMembers [OF df] mem by (simp add: count_distinct)
  then have one: "count_list (sortApis lc ?members) api = 1"
    by (simp add: count_sortApis)
  have "distinct arr" if "arr \<in> set (arrays out)" for arr
  proof -
    from outputData_arrays [OF out(1) that] obtain members
      where "members \<in> set (memberLists (viewApiData final))" "arr = sortApis lc members" by blast
    with df show ?thesis by (simp add: duplicateFree_def distinct_sortApis)
  qed
  with out one show ?thesis by blast
qed

theorem descriptor_appears_once_in_its_page_witness:
  "entryPage ''src/views'' dupEnv userPage = Some (''user'', ''user'') \<and>
   \<not> inherited fresh ''user'' \<and>
   fst (extractApisFromComponentWithConfig dupEnv userPage {} fresh) =
     [\<lparr>url = ''/x'', method = ''UNKNOWN'', functionName = None\<rparr>,
      \<lparr>url = ''/x'', method = ''UNKNOWN'', functionName = None\<rparr>] \<and>
   (\<exists>out arr. outputData codeUnitCompare
                 (viewApiData (processFiles ''src/views'' dupEnv [userPage] fresh)) = Inr out \<and>
      outputArray out ''user'' ''user'' = Some arr \<and>
      count_list arr \<lparr>url = ''/x'', method = ''UNKNOWN'', functionName = None\<rparr> = 1 \<and>
      (\<forall>arr' \<in> set (arrays out). distinct arr'))"
proof -
  have st: "fresh = processFiles ''src/views'' dupEnv [] fresh"
    by (simp add: processFiles_def)
  have names: "\<not> inherited fresh ''user''"
    by (simp add: inherited_def prototypeNames_def fresh_def)
  have mem: "\<lparr>url = ''/x'', method = ''UNKNOWN'', functionName = None\<rparr>
               \<in> set (fst (extractApisFromComponentWithConfig dupEnv userPage {} fresh))"
    by (simp add: dup_walk)
  from descriptor_appears_once_in_its_page [OF userPage_entryPage st names names mem, of _ "[]" codeUnitCompare]
    userPage_entryPage [of dupEnv] names dup_walk
  show ?thesis by simp
qed

section \<open>Import cycles\<close>

theorem memoized_cycle_entry_lacks_partner_counterexample:
  "source cycleEnv orderPage =
     Some ([\<lparr>url = ''/order'', method = ''UNKNOWN'', functionName = None\<rparr>], [goodsPage]) \<and>
   source cycleEnv goodsPage =
     Some ([\<lparr>url = ''/goods'', method = ''UNKNOWN'', functionName = None\<rparr>], [orderPage]) \<and>
   entryPage ''src/views'' cycleEnv orderPage = Some (''order'', ''order'') \<and>
   pageMembers (viewApiData (processFiles ''src/views'' cycleEnv [goodsPage, orderPage] fresh))
       ''order'' ''order'' =
     [\<lparr>url = ''/order'', method = ''UNKNOWN'', functionName = None\<rparr>]"
  by (simp add: cycle_sources cycle_second pageMembers_def orderPage_entryPage)

text \<open>
  C1, amended. Let the entry file A import B while B imports A back, both read and
  analysed without error, and let A be processed in a pass at a moment when
  \<^verbatim>\<open>Object.prototype\<close> answers for neither the category nor the page of A. The walk of A
  returns (the walk is a total function, its termination is proved with its definition).
  When A is not yet memoized at that moment, the \<^verbatim>\<open>Set\<close> recorded for the page of A holds,
  at the end of the pass, every descriptor directly declared in A and every descriptor
  directly declared in B. When A is already memoized (an earlier entry of the pass
  reached A), the walk returns the memoized list and changes nothing, and processing A
  adds exactly that list to the \<^verbatim>\<open>Set\<close> of its page: the list holds the descriptors
  directly declared in A, and those of B only if the earlier walk put them there.
\<close>

theorem cycle_entry_records_both_files:
  assumes A: "source E A = Some (dA, kA)" "B \<in> set kA"
    and B: "source E B = Some (dB, kB)" "A \<in> set kB"
    and entry: "entryPage viewsDir E A = Some (cat, page)"
    and st: "st = processFiles viewsDir E before fresh"
    and names: "\<not> inherited st cat" "\<not> inherited st page"
    and final: "final = processFiles viewsDir E (before @ A # after) fresh"
  shows "(\<exists>apis st'. extractApisFromComponentWithConfig E A {} st = (apis, st')) \<and>
         (componentCache st A = None \<longrightarrow>
            set dA \<union> set dB \<subseteq> set (pageMembers (viewApiData final) cat page)) \<and>
         (\<forall>r. componentCache st A = Some r \<longrightarrow>
            extractApisFromComponentWithConfig E A {} st = (r, st) \<and> set dA \<subseteq> set r \<and>
            set (pageMembers (viewApiData (processFileWithConfig viewsDir E A st)) cat page) =
              set (pageMembers (viewApiData st) cat page) \<union> set r)"
proof -
  let ?st' = "processFileWithConfig viewsDir E A st"
  have inv: "passInv E st"
    unfolding st by (rule passInv_processFiles [OF passInv_fresh])
  then have sound: "cacheSound E st" and miss: "stackIsMissing E st"
    by (simp_all add: passInv_def)
  have nA: "A \<notin> processingStack st"
    using miss source_exists [OF A(1)] unfolding stackIsMissing_def by auto
  have nB: "B \<notin> processingStack st"
    using miss source_exists [OF B(1)] unfolding stackIsMissing_def by auto
  have fin: "final = processFiles viewsDir E after ?st'"
    unfolding final st by (simp add: processFiles_append processFiles_Cons)
  have recorded: "set (pageMembers (viewApiData ?st') cat page) =
      set (pageMembers (viewApiData st) cat page) \<union>
      set (fst (extractApisFromComponentWithConfig E A {} st))"
    by (rule pageMembers_entry [OF entry names])
  have returns: "\<exists>apis st'. extractApisFromComponentWithConfig E A {} st = (apis, st')"
    by (cases "extractApisFromComponentWithConfig E A {} st") blast
  have fresh_walk: "set dA \<union> set dB \<subseteq> set (pageMembers (viewApiData final) cat page)"
    if none: "componentCache st A = None"
  proof -
    from cycle_walk [OF A B sound nA nB none] obtain apis st'
      where "extractApisFromComponentWithConfig E A {} st = (apis, st')"
        and "set dA \<union> set dB \<subseteq> set apis" by blast
    with recorded have "set dA \<union> set dB \<subseteq> set (pageMembers (viewApiData ?st') cat page)"
      by auto
    with pageMembers_processFiles_mono [of ?st' cat page viewsDir E after]
    show ?thesis unfolding fin by blast
  qed
  have memoized: "extractApisFromComponentWithConfig E A {} st = (r, st) \<and> set dA \<subseteq> set r \<and>
      set (pageMembers (viewApiData ?st') cat page) =
        set (pageMembers (viewApiData st) cat page) \<union> set r"
    if some: "componentCache st A = Some r" for r
  proof -
    have w: "extractApisFromComponentWithConfig E A {} st = (r, st)"
      using nA some by (simp add: walk_cached)
    from sound some A(1) have "set dA \<subseteq> set r" unfolding cacheSound_def by fastforce
    with w recorded show ?thesis by simp
  qed
  from returns fresh_walk memoized show ?thesis by blast
qed

theorem cycle_entry_records_both_files_witness:
  "source cycleEnv orderPage =
     Some ([\<lparr>url = ''/order'', method = ''UNKNOWN'', functionName = None\<rparr>], [goodsPage]) \<and>
   source cycleEnv goodsPage =
     Some ([\<lparr>url = ''/goods'', method = ''UNKNOWN'', functionName = None\<rparr>], [orderPage]) \<and>
   entryPage ''src/views'' cycleEnv orderPage = Some (''order'', ''order'') \<and>
   \<not> inherited fresh ''order'' \<and>
   componentCache fresh orderPage = None \<and>
   set [\<lparr>url = ''/order'', method = ''UNKNOWN'', functionName = None\<rparr>] \<union>
   set [\<lparr>url = ''/goods'', method = ''UNKNOWN'', functionName = None\<rparr>]
     \<subseteq> set (pageMembers (viewApiData (processFiles ''src/views'' cycleEnv [orderPage] fresh))
              ''order'' ''order'') \<and>
   \<not> inherited (processFiles ''src/views'' cycleEnv [goodsPage] fresh) ''order'' \<and>
   componentCache (processFiles ''src/views'' cycleEnv [goodsPage] fresh) orderPage =
     Some [\<lparr>url = ''/order'', method = ''UNKNOWN'', functionName = None\<rparr>] \<and>
   set (pageMembers (viewApiData (processFileWithConfig ''src/views'' cycleEnv orderPage
          (processFiles ''src/views'' cycleEnv [goodsPage] fresh))) ''order'' ''order'') =
     set (pageMembers (viewApiData (processFiles ''src/views'' cycleEnv [goodsPage] fresh))
            ''order'' ''order'') \<union>
     set [\<lparr>url = ''/order'', method = ''UNKNOWN'', functionName = None\<rparr>]"
proof -
  let ?goods = "processFiles ''src/views'' cycleEnv [goodsPage] fresh"
  have st: "fresh = processFiles ''src/views'' cycleEnv [] fresh"
    by (simp add: processFiles_def)
  have names: "\<not> inherited fresh ''order''"
    by (simp add: inherited_def prototypeNames_def fresh_def)
  have none: "componentCache fresh orderPage = None"
    by (simp add: fresh_def)
  have proto: "objectPrototype ?goods = objectPrototype fresh"
    unfolding processFiles_def by (simp add: processFile_prototype [OF goodsPage_entryPage])
  have names': "\<not> inherited ?goods ''order''"
    using names by (simp add: inherited_def proto)
  have fin: "processFiles ''src/views'' cycleEnv [orderPage] fresh =
      processFiles ''src/views'' cycleEnv ([] @ orderPage # []) fresh"
    by simp
  have fin': "processFiles ''src/views'' cycleEnv [goodsPage, orderPage] fresh =
      processFiles ''src/views'' cycleEnv ([goodsPage] @ orderPage # []) fresh"
    by simp
  have first: "set [\<lparr>url = ''/order'', method = ''UNKNOWN'', functionName = None\<rparr>] \<union>
      set [\<lparr>url = ''/goods'', method = ''UNKNOWN'', functionName = None\<rparr>]
      \<subseteq> set (pageMembers (viewApiData (processFiles ''src/views'' cycleEnv [orderPage] fresh))
              ''order'' ''order'')"
    using cycle_entry_records_both_files
      [OF cycle_sources(1) _ cycle_sources(2) _ orderPage_entryPage st names names fin]
      none
    by simp
  have second: "set (pageMembers (viewApiData (processFileWithConfig ''src/views'' cycleEnv orderPage
          ?goods)) ''order'' ''order'') =
     set (pageMembers (viewApiData ?goods) ''order'' ''order'') \<union>
     set [\<lparr>url = ''/order'', method = ''UNKNOWN'', functionName = None\<rparr>]"
    using cycle_entry_records_both_files
      [OF cycle_sources(1) _ cycle_sources(2) _ orderPage_entryPage refl names' names' fin']
      cycle_memo
    by simp
  from cycle_sources orderPage_entryPage [of cycleEnv] names none first names' cycle_memo second
  show ?thesis by simp
qed

section \<open>Shared components\<close>

theorem unreadable_shared_component_read_twice_counterexample:
  "source brokenSharedEnv goodsPage =
     Some ([\<lparr>url = ''/goods'', method = ''UNKNOWN'', functionName = None\<rparr>], [pricePart]) \<and>
   source brokenSharedEnv orderPage =
     Some ([\<lparr>url = ''/order'', method = ''UNKNOWN'', functionName = None\<rparr>], [pricePart]) \<and>
   raises brokenSharedEnv pricePart \<and>
   count_list (reads (processFiles ''src/views'' brokenSharedEnv [goodsPage, orderPage] fresh)) pricePart = 2"
proof -
  have "source brokenSharedEnv goodsPage =
     Some ([\<lparr>url = ''/goods'', method = ''UNKNOWN'', functionName = None\<rparr>], [pricePart])"
    and "source brokenSharedEnv orderPage =
     Some ([\<lparr>url = ''/order'', method = ''UNKNOWN'', functionName = None\<rparr>], [pricePart])"
    and "raises brokenSharedEnv pricePart"
    by (simp_all add: source_def raises_def brokenSharedEnv_def paths detection patterns)
  moreover have "count_list [goodsPage, pricePart, orderPage, pricePart] pricePart = 2"
    by (simp add: paths)
  ultimately show ?thesis by (simp only: brokenShared_reads simp_thms)
qed

text \<open>
  C9, amended. Let the component file C be read and analysed without error, and let two
  entry files of a pass import it, directly or transitively, with no import cycle
  reachable from either entry; let each entry be processed at a moment when
  \<^verbatim>\<open>Object.prototype\<close> answers for neither its category nor its page. Then C is read
  exactly once in the pass; at the end of the pass the \<^verbatim>\<open>Set\<close> recorded for the page of
  each of the two entries holds every descriptor declared in C or in a file reachable
  from C; and the list memoized for C before the second entry is processed is the one
  still memoized at the end of the pass, and holds that set.
\<close>

theorem shared_component_read_once:
  assumes C: "source E C = Some (dC, kC)"
    and e1: "entryPage viewsDir E e1 = Some (c1, p1)" "acyclicFrom E e1" "(e1, C) \<in> (edges E)\<^sup>+"
    and e2: "entryPage viewsDir E e2 = Some (c2, p2)" "acyclicFrom E e2" "(e2, C) \<in> (edges E)\<^sup>+"
    and st1: "st1 = processFiles viewsDir E before fresh"
    and st2: "st2 = processFiles viewsDir E (before @ e1 # between) fresh"
    and final: "final = processFiles viewsDir E (before @ e1 # between @ e2 # after) fresh"
    and n1: "\<not> inherited st1 c1" "\<not> inherited st1 p1"
    and n2: "\<not> inherited st2 c2" "\<not> inherited st2 p2"
  shows "count_list (reads final) C = 1 \<and>
         reachApis E C \<subseteq> set (pageMembers (viewApiData final) c1 p1) \<and>
         reachApis E C \<subseteq> set (pageMembers (viewApiData final) c2 p2) \<and>
         (\<exists>r. componentCache st2 C = Some r \<and> componentCache final C = Some r \<and> reachApis E C \<subseteq> set r)"
proof -
  have C': "source E C \<noteq> None" using C by simp
  have inv1: "passInv E st1" unfolding st1 by (rule passInv_processFiles [OF passInv_fresh])
  have inv2: "passInv E st2" unfolding st2 by (rule passInv_processFiles [OF passInv_fresh])
  have invf: "passInv E final" unfolding final by (rule passInv_processFiles [OF passInv_fresh])
  let ?st1' = "processFileWithConfig viewsDir E e1 st1"
  let ?st2' = "processFileWithConfig viewsDir E e2 st2"
  from entry_walk [OF inv1 e1(2,3) C']
  have r1: "reachApis E C \<subseteq> set (fst (extractApisFromComponentWithConfig E e1 {} st1))"
    and "C \<in> dom (componentCache (snd (extractApisFromComponentWithConfig E e1 {} st1)))"
    by blast+
  with e1(1) obtain r where r: "componentCache ?st1' C = Some r"
    by (auto simp: processFile_cache)
  have s2: "st2 = processFiles viewsDir E between ?st1'"
    unfolding st2 st1 by (simp add: processFiles_append processFiles_Cons)
  have sf: "final = processFiles viewsDir E (e2 # after) st2"
    unfolding final st2 by (simp add: processFiles_append processFiles_Cons)
  have sf1: "final = processFiles viewsDir E (between @ e2 # after) ?st1'"
    unfolding final st1 by (simp add: processFiles_append processFiles_Cons)
  have sf2: "final = processFiles viewsDir E after ?st2'"
    unfolding sf by (simp add: processFiles_Cons)
  have c2: "componentCache st2 C = Some r"
    unfolding s2 by (rule processFiles_cache_mono [OF r])
  have cf: "componentCache final C = Some r"
    unfolding sf by (rule processFiles_cache_mono [OF c2])
  have acC: "acyclicFrom E C"
    using acyclicFrom_step [OF e1(2)] e1(3) by (meson trancl_into_rtrancl)
  from inv2 c2 acC have rr: "reachApis E C \<subseteq> set r"
    unfolding passInv_def cacheComplete_def by blast
  from invf cf C' have one: "count_list (reads final) C = 1"
    unfolding passInv_def readsOnce_def by (auto simp: dom_def)
  from entry_walk(1) [OF inv2 e2(2,3) C']
  have r2: "reachApis E C \<subseteq> set (fst (extractApisFromComponentWithConfig E e2 {} st2))" .
  have "reachApis E C \<subseteq> set (pageMembers (viewApiData ?st1') c1 p1)"
    using r1 by (auto simp: pageMembers_entry [OF e1(1) n1])
  with pageMembers_processFiles_mono [of ?st1' c1 p1 viewsDir E "between @ e2 # after"]
  have m1: "reachApis E C \<subseteq> set (pageMembers (viewApiData final) c1 p1)"
    unfolding sf1 by blast
  have "reachApis E C \<subseteq> set (pageMembers (viewApiData ?st2') c2 p2)"
    using r2 by (auto simp: pageMembers_entry [OF e2(1) n2])
  with pageMembers_processFiles_mono [of ?st2' c2 p2 viewsDir E after]
  have m2: "reachApis E C \<subseteq> set (pageMembers (viewApiData final) c2 p2)"
    unfolding sf2 by blast
  from one m1 m2 c2 cf rr show ?thesis by blast
qed

theorem shared_component_read_once_witness:
  "source sharedEnv pricePart =
     Some ([\<lparr>url = ''/price'', method = ''UNKNOWN'', functionName = None\<rparr>], []) \<and>
   entryPage ''src/views'' sharedEnv goodsPage = Some (''goods'', ''goods'') \<and>
   entryPage ''src/views'' sharedEnv orderPage = Some (''order'', ''order'') \<and>
   (goodsPage, pricePart) \<in> (edges sharedEnv)\<^sup>+ \<and> (orderPage, pricePart) \<in> (edges sharedEnv)\<^sup>+ \<and>
   acyclicFrom sharedEnv goodsPage \<and> acyclicFrom sharedEnv orderPage \<and>
   \<not> inherited fresh ''goods'' \<and>
   \<not> inherited (processFiles ''src/views'' sharedEnv [goodsPage] fresh) ''order'' \<and>
   count_list (reads (processFiles ''src/views'' sharedEnv [goodsPage, orderPage] fresh)) pricePart = 1 \<and>
   reachApis sharedEnv pricePart \<subseteq>
     set (pageMembers (viewApiData (processFiles ''src/views'' sharedEnv [goodsPage, orderPage] fresh))
            ''goods'' ''goods'') \<and>
   reachApis sharedEnv pricePart \<subseteq>
     set (pageMembers (viewApiData (processFiles ''src/views'' sharedEnv [goodsPage, orderPage] fresh))
            ''order'' ''order'') \<and>
   \<lparr>url = ''/price'', method = ''UNKNOWN'', functionName = None\<rparr> \<in> reachApis sharedEnv pricePart"
proof -
  let ?goods = "processFiles ''src/views'' sharedEnv [goodsPage] fresh"
  have g: "(goodsPage, pricePart) \<in> (edges sharedEnv)\<^sup>+"
    using edgesI [OF shared_sources(2)] by auto
  have o: "(orderPage, pricePart) \<in> (edges sharedEnv)\<^sup>+"
    using edgesI [OF shared_sources(3)] by auto
  have st1: "fresh = processFiles ''src/views'' sharedEnv [] fresh" by (simp add: processFiles_def)
  have n1: "\<not> inherited fresh ''goods''"
    by (simp add: inherited_def prototypeNames_def fresh_def)
  have proto: "objectPrototype ?goods = objectPrototype fresh"
    unfolding processFiles_def by (simp add: processFile_prototype [OF goodsPage_entryPage])
  have "objectPrototype ?goods = {}"
    unfolding proto by (simp add: fresh_def)
  then have n2: "\<not> inherited ?goods ''order''"
    by (simp add: inherited_def prototypeNames_def)
  have st2: "?goods = processFiles ''src/views'' sharedEnv ([] @ goodsPage # []) fresh" by simp
  have price: "\<lparr>url = ''/price'', method = ''UNKNOWN'', functionName = None\<rparr> \<in> reachApis sharedEnv pricePart"
    using reachApis_direct [OF shared_sources(1)] by auto
  from shared_component_read_once
    [OF shared_sources(1) goodsPage_entryPage shared_acyclic g orderPage_entryPage shared_acyclic o
        st1 st2 _ n1 n1 n2 n2, of _ "[]"]
    shared_sources(1) goodsPage_entryPage [of sharedEnv] orderPage_entryPage [of sharedEnv]
    g o shared_acyclic n1 n2 price
  show ?thesis by simp
qed

section \<open>The engine on texts of a given shape\<close>

text \<open>Every way the engine finds leaves a suffix of the text it started on.\<close>

lemma run_suffix:
  "(cap', s') \<in> set (run r (cap, s)) \<Longrightarrow> \<exists>pre. s = pre @ s'"
proof (induction r "(cap, s)" arbitrary: cap s cap' s' rule: run.induct)
  case (1 cap s)
  then show ?case by simp
next
  case (2 c cap s)
  then show ?case by (cases s) (auto split: if_splits)
next
  case (3 P cap s)
  then show ?case by (cases s) (auto split: if_splits)
next
  case (4 a b cap s)
  from "4.prems" obtain cm sm where m: "(cm, sm) \<in> set (run a (cap, s))"
    "(cap', s') \<in> set (run b (cm, sm))"
    by auto
  from "4.hyps"(1) [OF m(1)] obtain p1 where p1: "s = p1 @ sm" ..
  from "4.hyps"(2) [OF m(1) m(2)] obtain p2 where "sm = p2 @ s'" ..
  with p1 have "s = (p1 @ p2) @ s'" by simp
  then show ?case ..
next
  case (5 a b cap s)
  from "5.prems" have "(cap', s') \<in> set (run a (cap, s)) \<or> (cap', s') \<in> set (run b (cap, s))"
    by simp
  with "5.hyps" show ?case by blast
next
  case (6 a cap s)
  from "6.prems" consider "(cap', s') = (cap, s)"
    | cm sm where "(cm, sm) \<in> set (run a (cap, s))" "length sm < length s"
        "(cap', s') \<in> set (run (Star a) (cm, sm))"
    by (subst (asm) run.simps) (auto split: if_splits simp del: run.simps)
  then show ?case
  proof cases
    case 1
    then show ?thesis by simp
  next
    case 2
    from "6.hyps"(1) [OF 2(1)] obtain p1 where p1: "s = p1 @ sm" ..
    from "6.hyps"(2) [OF 2(1) refl 2(2) 2(3)] obtain p2 where "sm = p2 @ s'" ..
    with p1 have "s = (p1 @ p2) @ s'" by simp
    then show ?thesis ..
  qed
next
  case (7 a cap s)
  from "7.prems" consider "(cap', s') = (cap, s)"
    | cm sm where "(cm, sm) \<in> set (run a (cap, s))" "length sm < length s"
        "(cap', s') \<in> set (run (LazyStar a) (cm, sm))"
    by (subst (asm) run.simps) (auto split: if_splits simp del: run.simps)
  then show ?case
  proof cases
    case 1
    then show ?thesis by simp
  next
    case 2
    from "7.hyps"(1) [OF 2(1)] obtain p1 where p1: "s = p1 @ sm" ..
    from "7.hyps"(2) [OF 2(1) refl 2(2) 2(3)] obtain p2 where "sm = p2 @ s'" ..
    with p1 have "s = (p1 @ p2) @ s'" by simp
    then show ?thesis ..
  qed
next
  case (8 a cap s)
  from "8.prems" obtain cm where "(cm, s') \<in> set (run a (cap, s))" by auto
  from "8.hyps" [OF this] show ?case .
qed

lemma match_here_split:
  assumes "match_here r s = Some (m, cap, rest)"
  shows "s = m @ rest"
proof -
  from assms obtain others where run: "run r (None, s) = (cap, rest) # others"
    and m: "m = take (length s - length rest) s"
    by (auto simp: match_here_def split: list.splits)
  then have "(cap, rest) \<in> set (run r (None, s))" by simp
  from run_suffix [OF this] obtain pre where "s = pre @ rest" ..
  with m show ?thesis by simp
qed

declare match_all.simps [simp del] replace_all.simps [simp del]
declare run.simps [simp del]

text \<open>The engine, one constructor at a time.\<close>

lemma run_Eps: "run Eps st = [st]"
  by (cases st) (simp add: run.simps)

lemma run_Lit_Cons: "run (Lit c) (cap, x # xs) = (if x = c then [(cap, xs)] else [])"
  by (simp add: run.simps)

lemma run_Lit_Nil: "run (Lit c) (cap, []) = []"
  by (simp add: run.simps)

lemma run_Cls_Cons: "run (Cls P) (cap, x # xs) = (if P x then [(cap, xs)] else [])"
  by (simp add: run.simps)

lemma run_Cls_Nil: "run (Cls P) (cap, []) = []"
  by (simp add: run.simps)

lemma run_Seq: "run (Seq a b) st = concat (map (run b) (run a st))"
  by (cases st) (simp add: run.simps)

lemma run_Alt: "run (Alt a b) st = run a st @ run b st"
  by (cases st) (simp add: run.simps)

lemma run_Star_Cls_Nil: "run (Star (Cls P)) (cap, []) = [(cap, [])]"
  by (subst run.simps) (simp add: run_Cls_Nil)

lemma run_Star_Cls_Cons:
  "run (Star (Cls P)) (cap, c # s) =
     (if P c then run (Star (Cls P)) (cap, s) @ [(cap, c # s)] else [(cap, c # s)])"
  by (subst run.simps) (simp add: run_Cls_Cons)

lemma run_Group:
  "run (Group a) (cap, s) =
     map (\<lambda>(cap', s'). (Some (take (length s - length s') s), s')) (run a (cap, s))"
  by (simp add: run.simps)

text \<open>A literal word.\<close>

lemma run_str: "run (str w) (cap, w @ s) = [(cap, s)]"
  by (induction w) (simp_all add: str_def seqs_def run_Eps run_Seq run_Lit_Cons)

lemma run_str_Cons:
  "run (str (c # w)) (cap, s) = (case s of [] \<Rightarrow> [] | x # xs \<Rightarrow> if x = c then run (str w) (cap, xs) else [])"
  by (cases s) (simp_all add: str_def seqs_def run_Seq run_Lit_Cons run_Lit_Nil)

text \<open>
  A greedy run of a class, followed by a pattern that rejects every text starting with a
  character of the run.
\<close>

lemma star_then:
  assumes "\<forall>c \<in> set ws. P c \<and> (\<forall>cap u. run R (cap, c # u) = [])"
  shows "concat (map (run R) (run (Star (Cls P)) (cap, ws @ t))) =
         concat (map (run R) (run (Star (Cls P)) (cap, t)))"
  using assms by (induction ws) (simp_all add: run_Star_Cls_Cons)

lemma star_stop:
  assumes "\<not> P c"
  shows "run (Star (Cls P)) (cap, c # t) = [(cap, c # t)]"
  using assms by (simp add: run_Star_Cls_Cons)

lemma seq_star:
  assumes "\<forall>c \<in> set ws. P c \<and> (\<forall>cap u. run R (cap, c # u) = [])" and "\<not> P q"
  shows "run (Seq (Star (Cls P)) R) (cap, ws @ q # t) = run R (cap, q # t)"
  using assms(2) by (simp add: run_Seq star_then [OF assms(1)] run_Star_Cls_Cons)

text \<open>The ways a greedy run of a class can end, when the run is followed by a character outside it.\<close>

lemma star_ways:
  assumes "\<forall>c \<in> set bs. P c" and "\<not> P q"
  shows "\<exists>others. run (Star (Cls P)) (cap, bs @ q # t) = (cap, q # t) # others \<and>
           (\<forall>(cap', s') \<in> set others. \<exists>x u. s' = x # u \<and> P x)"
  using assms(1)
proof (induction bs)
  case Nil
  then show ?case using assms(2) by (simp add: run_Star_Cls_Cons)
next
  case (Cons b bs)
  then obtain others where o: "run (Star (Cls P)) (cap, bs @ q # t) = (cap, q # t) # others"
    "\<forall>(cap', s') \<in> set others. \<exists>x u. s' = x # u \<and> P x"
    by auto
  from Cons.prems have "P b" by simp
  then have "run (Star (Cls P)) (cap, (b # bs) @ q # t) = (cap, q # t) # (others @ [(cap, b # bs @ q # t)])"
    by (simp add: run_Star_Cls_Cons o(1))
  moreover have "\<forall>(cap', s') \<in> set (others @ [(cap, b # bs @ q # t)]). \<exists>x u. s' = x # u \<and> P x"
    using o(2) \<open>P b\<close> by auto
  ultimately show ?case by blast
qed

text \<open>The scan of a global match reaches every match that no earlier match runs into.\<close>

lemma match_all_finds:
  assumes "match_here r (drop i s) = Some (m, c, rest)" and "m \<noteq> []" and "i \<le> length s"
    and "\<forall>j<i. \<forall>m' c' r'. match_here r (drop j s) = Some (m', c', r') \<longrightarrow> j + length m' \<le> i"
  shows "m \<in> set (match_all r s)"
  using assms
proof (induction "length s" arbitrary: s i rule: less_induct)
  case less
  show ?case
  proof (cases i)
    case 0
    with less.prems(1,2) show ?thesis by (subst match_all.simps) simp
  next
    case (Suc k)
    with less.prems(3) obtain x xs where s: "s = x # xs" by (cases s) auto
    have step: "m \<in> set (match_all r xs)"
    proof (rule less.hyps [of xs k])
      show "length xs < length s" using s by simp
      show "match_here r (drop k xs) = Some (m, c, rest)" using less.prems(1) s Suc by simp
      show "m \<noteq> []" by (rule less.prems(2))
      show "k \<le> length xs" using less.prems(3) s Suc by simp
      show "\<forall>j<k. \<forall>m' c' r'. match_here r (drop j xs) = Some (m', c', r') \<longrightarrow> j + length m' \<le> k"
      proof (intro allI impI)
        fix j m' c' r'
        assume "j < k" and "match_here r (drop j xs) = Some (m', c', r')"
        then have "Suc j < i" "match_here r (drop (Suc j) s) = Some (m', c', r')"
          using s Suc by simp_all
        with less.prems(4) have "Suc j + length m' \<le> i" by blast
        then show "j + length m' \<le> k" using Suc by simp
      qed
    qed
    show ?thesis
    proof (cases "match_here r s")
      case None
      then show ?thesis using step s by (subst match_all.simps) simp
    next
      case (Some a)
      then obtain m0 c0 r0 where a: "match_here r s = Some (m0, c0, r0)" by (cases a) auto
      show ?thesis
      proof (cases "m0 = []")
        case True
        then show ?thesis using step s a by (subst match_all.simps) simp
      next
        case False
        from less.prems(4) Suc a have le: "length m0 \<le> i"
          by (metis add_0 drop0 zero_less_Suc)
        from match_here_split [OF a] have sm: "s = m0 @ r0" .
        have "m \<in> set (match_all r (drop (length m0) s))"
        proof (rule less.hyps [of _ "i - length m0"])
          show "length (drop (length m0) s) < length s" using False sm by (cases m0) auto
          show "match_here r (drop (i - length m0) (drop (length m0) s)) = Some (m, c, rest)"
            using less.prems(1) le by simp
          show "m \<noteq> []" by (rule less.prems(2))
          show "i - length m0 \<le> length (drop (length m0) s)" using less.prems(3) by simp
          show "\<forall>j<i - length m0. \<forall>m' c' r'.
                  match_here r (drop j (drop (length m0) s)) = Some (m', c', r') \<longrightarrow>
                  j + length m' \<le> i - length m0"
          proof (intro allI impI)
            fix j m' c' r'
            assume j: "j < i - length m0"
              and "match_here r (drop j (drop (length m0) s)) = Some (m', c', r')"
            then have "match_here r (drop (j + length m0) s) = Some (m', c', r')" by simp
            moreover from j have "j + length m0 < i" by simp
            ultimately have "j + length m0 + length m' \<le> i" using less.prems(4) by blast
            then show "j + length m' \<le> i - length m0" by simp
          qed
        qed
        then show ?thesis using a False by (subst match_all.simps) simp
      qed
    qed
  qed
qed

section \<open>Literal urls in a file text\<close>

text \<open>
  The pattern of \<open>extractDirectApisWithConfig\<close> on an occurrence: the key \<^verbatim>\<open>url:\<close>, white
  space, a quote, a path that starts with \<^verbatim>\<open>/\<close>, has a further character and no quote, and a
  quote.
\<close>

lemma space_not_quote: "isSpace c \<Longrightarrow> \<not> isQuote2 c"
  by (auto simp: isSpace_def isQuote2_def)

lemma group_path:
  assumes "body \<noteq> []" and "\<forall>c \<in> set body. \<not> isQuote2 c" and "isQuote2 q'"
  shows "run (Seq (Group (Seq (Lit CHR ''/'') (Plus (Cls (\<lambda>c. \<not> isQuote2 c)))))
                  (Seq (Cls isQuote2) Eps))
             (cap, CHR ''/'' # body @ q' # rest) = [(Some (CHR ''/'' # body), rest)]"
proof -
  let ?nq = "\<lambda>c. \<not> isQuote2 c"
  let ?s = "CHR ''/'' # body @ q' # rest"
  let ?f = "\<lambda>(cap', s'). (Some (take (length ?s - length s') ?s), s')"
  let ?R = "Seq (Cls isQuote2) Eps"
  from assms(1) obtain b bs where body: "body = b # bs" by (cases body) auto
  with assms(2) have b: "\<not> isQuote2 b" and bs: "\<forall>c \<in> set bs. ?nq c" by auto
  from star_ways [of bs ?nq q' cap rest] bs assms(3)
  obtain others where o: "run (Star (Cls ?nq)) (cap, bs @ q' # rest) = (cap, q' # rest) # others"
    and rest: "\<forall>(cap', s') \<in> set others. \<exists>x u. s' = x # u \<and> \<not> isQuote2 x"
    by auto
  have G: "run (Seq (Lit CHR ''/'') (Plus (Cls ?nq))) (cap, ?s) = (cap, q' # rest) # others"
    using b by (simp add: run_Seq run_Lit_Cons Plus_def run_Cls_Cons body o)
  have dead: "concat (map (run ?R) (map ?f others)) = []"
  proof -
    have "run ?R (?f x) = []" if "x \<in> set others" for x
    proof -
      obtain c s' where x: "x = (c, s')" by (cases x)
      with that rest obtain y u where "s' = y # u" "\<not> isQuote2 y" by blast
      with x show ?thesis by (simp add: run_Seq run_Cls_Cons)
    qed
    then show ?thesis by (induction others) simp_all
  qed
  have first: "run ?R (?f (cap, q' # rest)) = [(Some (CHR ''/'' # body), rest)]"
    using assms(3) by (simp add: run_Seq run_Cls_Cons run_Eps)
  show ?thesis
    unfolding run_Seq [of "Group _"] run_Group G
    using first dead by (simp del: map_map)
qed

lemma url_occurrence_run:
  assumes "\<forall>c \<in> set ws. isSpace c" and "isQuote2 q" and "body \<noteq> []"
    and "\<forall>c \<in> set body. \<not> isQuote2 c" and "isQuote2 q'"
  shows "run urlLiteralRe (cap, ''url:'' @ ws @ q # CHR ''/'' # body @ q' # rest) =
           [(Some (CHR ''/'' # body), rest)]"
proof -
  let ?R2 = "Seq (Group (Seq (Lit CHR ''/'') (Plus (Cls (\<lambda>c. \<not> isQuote2 c))))) (Seq (Cls isQuote2) Eps)"
  let ?R1 = "Seq (Cls isQuote2) ?R2"
  have re: "urlLiteralRe = Seq (str ''url:'') (Seq (Star (Cls isSpace)) ?R1)"
    by (simp add: urlLiteralRe_def seqs_def)
  have reject: "\<forall>c \<in> set ws. isSpace c \<and> (\<forall>cap u. run ?R1 (cap, c # u) = [])"
    using assms(1) by (auto simp: run_Seq [of "Cls _"] run_Cls_Cons space_not_quote)
  have nq: "\<not> isSpace q" using assms(2) space_not_quote by blast
  have "run urlLiteralRe (cap, ''url:'' @ ws @ q # CHR ''/'' # body @ q' # rest) =
          run (Seq (Star (Cls isSpace)) ?R1) (cap, ws @ q # CHR ''/'' # body @ q' # rest)"
    unfolding re run_Seq [of "str _"] run_str by simp
  also have "\<dots> = run ?R1 (cap, q # CHR ''/'' # body @ q' # rest)"
    by (rule seq_star [OF reject nq])
  also have "\<dots> = run ?R2 (cap, CHR ''/'' # body @ q' # rest)"
    unfolding run_Seq [of "Cls _"] using assms(2) by (simp add: run_Cls_Cons)
  also have "\<dots> = [(Some (CHR ''/'' # body), rest)]"
    by (rule group_path [OF assms(3,4,5)])
  finally show ?thesis .
qed

lemma match_here_single:
  "run r (None, m @ rest) = [(cap, rest)] \<Longrightarrow> match_here r (m @ rest) = Some (m, cap, rest)"
  by (simp add: match_here_def)

lemma url_occurrence_match:
  assumes "\<forall>c \<in> set ws. isSpace c" and "isQuote2 q" and "body \<noteq> []"
    and "\<forall>c \<in> set body. \<not> isQuote2 c" and "isQuote2 q'"
  shows "match_here urlLiteralRe (''url:'' @ ws @ q # CHR ''/'' # body @ q' # rest) =
           Some (''url:'' @ ws @ q # CHR ''/'' # body @ [q'], Some (CHR ''/'' # body), rest)"
proof -
  let ?m = "''url:'' @ ws @ q # CHR ''/'' # body @ [q']"
  have "match_here urlLiteralRe (?m @ rest) = Some (?m, Some (CHR ''/'' # body), rest)"
    by (rule match_here_single) (use url_occurrence_run [OF assms, of None rest] in simp)
  then show ?thesis by simp
qed

text \<open>The strip pattern on the matched text.\<close>

lemma quote_after_space:
  assumes "run (Seq (Star (Cls isSpace)) (Seq (Cls isQuote2) Eps)) (cap, s) \<noteq> []"
  shows "\<exists>w c t. s = w @ c # t \<and> (\<forall>x \<in> set w. isSpace x) \<and> isQuote2 c"
  using assms
proof (induction s)
  case Nil
  then show ?case by (simp add: run_Seq run_Star_Cls_Nil run_Cls_Nil)
next
  case (Cons x xs)
  show ?case
  proof (cases "isSpace x")
    case True
    then have "\<not> isQuote2 x" by (rule space_not_quote)
    with True Cons.prems have "run (Seq (Star (Cls isSpace)) (Seq (Cls isQuote2) Eps)) (cap, xs) \<noteq> []"
      by (simp add: run_Seq run_Star_Cls_Cons run_Cls_Cons)
    from Cons.IH [OF this] obtain w c t
      where "xs = w @ c # t" "\<forall>x \<in> set w. isSpace x" "isQuote2 c" by blast
    with True have "x # xs = (x # w) @ c # t \<and> (\<forall>y \<in> set (x # w). isSpace y) \<and> isQuote2 c"
      by simp
    then show ?thesis by blast
  next
    case False
    with Cons.prems have "isQuote2 x"
      by (simp add: run_Seq run_Star_Cls_Cons run_Cls_Cons split: if_splits)
    then have "x # xs = [] @ x # xs \<and> (\<forall>y \<in> set []. isSpace y) \<and> isQuote2 x" by simp
    then show ?thesis by blast
  qed
qed

lemma run_str_other:
  "run (str w) (cap, s) \<noteq> [] \<Longrightarrow> \<exists>t. s = w @ t \<and> run (str w) (cap, s) = [(cap, t)]"
proof (induction w arbitrary: s)
  case Nil
  then show ?case by (simp add: str_def seqs_def run_Eps)
next
  case (Cons c w)
  from Cons.prems obtain xs where s: "s = c # xs" and r: "run (str w) (cap, xs) \<noteq> []"
    by (auto simp: run_str_Cons split: list.splits if_splits)
  from Cons.IH [OF r] obtain t where "xs = w @ t" by blast
  with s have "s = (c # w) @ t" by simp
  with run_str [of "c # w" cap t] show ?case by auto
qed

lemma urlKey_needs:
  assumes "run urlKeyRe (cap, s) \<noteq> []"
  shows "\<exists>w c t. s = ''url:'' @ w @ c # t \<and> (\<forall>x \<in> set w. isSpace x) \<and> isQuote2 c"
proof -
  have re: "urlKeyRe = Seq (str ''url:'') (Seq (Star (Cls isSpace)) (Seq (Cls isQuote2) Eps))" by (simp add: urlKeyRe_def seqs_def)
  from assms have ne: "run (str ''url:'') (cap, s) \<noteq> []"
    unfolding re run_Seq [of "str _"] by auto
  from run_str_other [OF this] obtain t where t: "s = ''url:'' @ t"
    and r: "run (str ''url:'') (cap, s) = [(cap, t)]" by blast
  from assms have "run (Seq (Star (Cls isSpace)) (Seq (Cls isQuote2) Eps)) (cap, t) \<noteq> []"
    unfolding re run_Seq [of "str _"] r by simp
  from quote_after_space [OF this] t show ?thesis by auto
qed

lemma urlKey_run:
  assumes "\<forall>c \<in> set ws. isSpace c" and "isQuote2 q"
  shows "run urlKeyRe (cap, ''url:'' @ ws @ q # t) = [(cap, t)]"
proof -
  have re: "urlKeyRe = Seq (str ''url:'') (Seq (Star (Cls isSpace)) (Seq (Cls isQuote2) Eps))" by (simp add: urlKeyRe_def seqs_def)
  have reject: "\<forall>c \<in> set ws. isSpace c \<and> (\<forall>cap u. run (Seq (Cls isQuote2) Eps) (cap, c # u) = [])"
    using assms(1) by (auto simp: run_Seq run_Cls_Cons space_not_quote)
  have nq: "\<not> isSpace q" using assms(2) space_not_quote by blast
  have "run urlKeyRe (cap, ''url:'' @ ws @ q # t) = run (Seq (Star (Cls isSpace)) (Seq (Cls isQuote2) Eps)) (cap, ws @ q # t)"
    unfolding re run_Seq [of "str _"] run_str by simp
  also have "\<dots> = run (Seq (Cls isQuote2) Eps) (cap, q # t)"
    by (rule seq_star [OF reject nq])
  also have "\<dots> = [(cap, t)]"
    using assms(2) by (simp add: run_Seq run_Cls_Cons run_Eps)
  finally show ?thesis .
qed

lemma stripRe_urlKey: "stripRe = Alt urlKeyRe (Cls isQuote2)"
  by (rule stripRe_def)

text \<open>Inside a path without quotes the strip pattern matches only a trailing key.\<close>

lemma strip_path:
  assumes "\<forall>c \<in> set v. \<not> isQuote2 c" and "isQuote2 q'"
    and "\<not> (\<exists>u w. v = u @ ''url:'' @ w \<and> (\<forall>c \<in> set w. isSpace c))"
  shows "replace_all stripRe [] (v @ [q']) = v"
  using assms(1,3)
proof (induction v)
  case Nil
  have "run urlKeyRe (None, [q']) = []"
  proof (rule ccontr)
    assume "run urlKeyRe (None, [q']) \<noteq> []"
    from urlKey_needs [OF this] show False by auto
  qed
  then have "match_here stripRe [q'] = Some ([q'], None, [])"
    using assms(2) by (simp add: match_here_def stripRe_urlKey run_Alt run_Cls_Cons)
  moreover have "match_here stripRe [] = None"
  proof -
    have "run urlKeyRe (None, []) = []"
    proof (rule ccontr)
      assume "run urlKeyRe (None, []) \<noteq> []"
      from urlKey_needs [OF this] show False by auto
    qed
    then show ?thesis by (simp add: match_here_def stripRe_urlKey run_Alt run_Cls_Nil)
  qed
  ultimately show ?case
    by (subst replace_all.simps, simp, subst replace_all.simps, simp)
next
  case (Cons x xs)
  have key: "run urlKeyRe (None, x # xs @ [q']) = []"
  proof (rule ccontr)
    assume "run urlKeyRe (None, x # xs @ [q']) \<noteq> []"
    from urlKey_needs [OF this] obtain w c t
      where s: "x # xs @ [q'] = ''url:'' @ w @ c # t" and w: "\<forall>x \<in> set w. isSpace x" and c: "isQuote2 c"
      by blast
    have "t = []"
    proof (rule ccontr)
      assume "t \<noteq> []"
      then obtain t' y where t: "t = t' @ [y]" by (cases t rule: rev_cases) auto
      with s have "(x # xs) @ [q'] = (''url:'' @ w @ c # t') @ [y]" by simp
      then have "x # xs = ''url:'' @ w @ c # t'" by (simp only: append1_eq_conv)
      then have "c \<in> set (x # xs)" by simp
      with Cons.prems(1) c show False by blast
    qed
    with s have "(x # xs) @ [q'] = (''url:'' @ w) @ [c]" by simp
    then have "x # xs = ''url:'' @ w" by (simp only: append1_eq_conv)
    then have "x # xs = [] @ ''url:'' @ w" by simp
    with w Cons.prems(2) show False by blast
  qed
  have "\<not> isQuote2 x" using Cons.prems(1) by simp
  with key have none: "match_here stripRe (x # xs @ [q']) = None"
    by (simp add: match_here_def stripRe_urlKey run_Alt run_Cls_Cons)
  have "\<not> (\<exists>u w. xs = u @ ''url:'' @ w \<and> (\<forall>c \<in> set w. isSpace c))"
  proof
    assume "\<exists>u w. xs = u @ ''url:'' @ w \<and> (\<forall>c \<in> set w. isSpace c)"
    then obtain u w where "xs = u @ ''url:'' @ w" "\<forall>c \<in> set w. isSpace c" by blast
    then have "x # xs = (x # u) @ ''url:'' @ w \<and> (\<forall>c \<in> set w. isSpace c)" by simp
    with Cons.prems(2) show False by blast
  qed
  with Cons.IH Cons.prems(1) have IH: "replace_all stripRe [] (xs @ [q']) = xs" by simp
  show ?case
    by (subst replace_all.simps) (simp add: none IH)
qed

lemma match_here_first:
  "run r (None, m @ rest) = (cap, rest) # others \<Longrightarrow> match_here r (m @ rest) = Some (m, cap, rest)"
  by (simp add: match_here_def)

lemma strip_occurrence:
  assumes "\<forall>c \<in> set ws. isSpace c" and "isQuote2 q"
    and "\<forall>c \<in> set v. \<not> isQuote2 c" and "isQuote2 q'"
    and "\<not> (\<exists>u w. v = u @ ''url:'' @ w \<and> (\<forall>c \<in> set w. isSpace c))"
  shows "replace_all stripRe [] (''url:'' @ ws @ q # v @ [q']) = v"
proof -
  let ?m = "''url:'' @ ws @ [q]"
  have "run stripRe (None, ?m @ v @ [q']) = (None, v @ [q']) # run (Cls isQuote2) (None, ?m @ v @ [q'])"
    unfolding stripRe_urlKey run_Alt using urlKey_run [OF assms(1,2), of None "v @ [q']"] by simp
  then have "match_here stripRe (?m @ v @ [q']) = Some (?m, None, v @ [q'])"
    by (rule match_here_first)
  then have m: "match_here stripRe (''url:'' @ ws @ q # v @ [q']) = Some (?m, None, v @ [q'])"
    by simp
  have d: "drop (length ?m) (''url:'' @ ws @ q # v @ [q']) = v @ [q']" by simp
  show ?thesis
    by (subst replace_all.simps) (simp only: m d option.case prod.case, simp add: strip_path [OF assms(3,4,5)])
qed


lemma no_colon_no_key:
  "CHR '':'' \<notin> set p \<Longrightarrow> \<not> (\<exists>u w. p = u @ ''url:'' @ w \<and> (\<forall>c \<in> set w. isSpace c))"
  by auto


text \<open>
  A literal whose path does not start with \<^verbatim>\<open>/\<close> gives no descriptor; a path that ends in
  \<^verbatim>\<open>url:\<close> loses that end; and a literal inside the text matched for an earlier one is
  passed over.
\<close>

theorem url_literal_without_slash_counterexample:
  "extractDirectApisWithConfig (\<lambda>code filePath. Inr []) (urlLine ''users'') ''/p/src/views/a.vue'' =
     Inr []"
  by (simp add: detection patterns run.simps match_all.simps)

lemma trailing_key_is_stripped:
  "extractDirectApisWithConfig (\<lambda>code filePath. Inr []) (urlLine ''/aurl:'') ''/p/src/views/a.vue'' =
     Inr [\<lparr>url = ''/a'', method = ''UNKNOWN'', functionName = None\<rparr>]"
  by (simp add: detection patterns run.simps match_all.simps replace_all.simps)

lemma overlapped_literal_is_skipped:
  "extractDirectApisWithConfig (\<lambda>code filePath. Inr [])
       (''url: '' @ [CHR 0x22] @ ''/a url: '' @ [CHR 0x27] @ ''/b'' @ [CHR 0x27]) ''/p/src/views/a.vue'' =
     Inr [\<lparr>url = ''/a '', method = ''UNKNOWN'', functionName = None\<rparr>]"
  by (simp add: detection patterns run.simps match_all.simps replace_all.simps)

text \<open>
  C8, amended. Let the text contain \<^verbatim>\<open>url:\<close>, white space (possibly none), a quote
  (\<^verbatim>\<open>"\<close> or \<^verbatim>\<open>'\<close>), a path and a quote, where the path is \<^verbatim>\<open>/\<close> followed by at least one
  character, contains no quote and does not end in \<^verbatim>\<open>url:\<close> followed by white space. If no
  match of the pattern that starts earlier in the text runs into this occurrence, and the
  detections by import do not raise, then \<open>extractDirectApisWithConfig\<close> returns a list that
  holds the descriptor with this path as url, method \<^verbatim>\<open>UNKNOWN\<close> and no function name.
\<close>

theorem url_literal_yields_descriptor:
  assumes code: "code = before @ ''url:'' @ ws @ q # CHR ''/'' # body @ q' # rest"
    and ws: "\<forall>c \<in> set ws. isSpace c"
    and q: "isQuote2 q" "isQuote2 q'"
    and body: "body \<noteq> []" "\<forall>c \<in> set body. \<not> isQuote2 c"
    and key: "\<not> (\<exists>u w. CHR ''/'' # body = u @ ''url:'' @ w \<and> (\<forall>c \<in> set w. isSpace c))"
    and earlier: "\<forall>j < length before. \<forall>m cap r.
                    match_here urlLiteralRe (drop j code) = Some (m, cap, r) \<longrightarrow>
                    j + length m \<le> length before"
    and imported: "importedApis code filePath = Inr imported"
  shows "\<exists>apis. extractDirectApisWithConfig importedApis code filePath = Inr apis \<and>
           \<lparr>url = CHR ''/'' # body, method = ''UNKNOWN'', functionName = None\<rparr> \<in> set apis"
proof -
  let ?m = "''url:'' @ ws @ q # CHR ''/'' # body @ [q']"
  have d: "drop (length before) code = ''url:'' @ ws @ q # CHR ''/'' # body @ q' # rest"
    unfolding code by simp
  have here: "match_here urlLiteralRe (drop (length before) code) =
                Some (?m, Some (CHR ''/'' # body), rest)"
    unfolding d by (rule url_occurrence_match [OF ws q(1) body q(2)])
  have "?m \<noteq> []" by simp
  moreover have "length before \<le> length code" unfolding code by simp
  ultimately have found: "?m \<in> set (match_all urlLiteralRe code)"
    using match_all_finds [OF here _ _ earlier] by blast
  have path: "\<forall>c \<in> set (CHR ''/'' # body). \<not> isQuote2 c"
    using body(2) by (simp add: isQuote2_def)
  have "replace_all stripRe [] (''url:'' @ ws @ q # (CHR ''/'' # body) @ [q']) = CHR ''/'' # body"
    by (rule strip_occurrence [OF ws q(1) path q(2) key])
  then have strip: "replace_all stripRe [] ?m = CHR ''/'' # body" by simp
  have "\<lparr>url = replace_all stripRe [] ?m, method = ''UNKNOWN'', functionName = None\<rparr>
          \<in> set (urlLiteralApis code)"
    unfolding urlLiteralApis_def using found by (simp only: set_map) (rule imageI)
  then have "\<lparr>url = CHR ''/'' # body, method = ''UNKNOWN'', functionName = None\<rparr>
          \<in> set (urlLiteralApis code @ imported)"
    unfolding strip by simp
  then show ?thesis
    unfolding extractDirectApisWithConfig_def imported by simp
qed


theorem url_literal_yields_descriptor_witness:
  "\<exists>apis. extractDirectApisWithConfig (\<lambda>code filePath. Inr [])
             (''a, url: '' @ [CHR 0x22] @ ''/users'' @ [CHR 0x22] @ '' }'') ''/p/src/views/a.vue'' = Inr apis \<and>
          \<lparr>url = ''/users'', method = ''UNKNOWN'', functionName = None\<rparr> \<in> set apis"
proof -
  let ?code = "''a, url: '' @ [CHR 0x22] @ ''/users'' @ [CHR 0x22] @ '' }''"
  have code: "?code = ''a, '' @ ''url:'' @ '' '' @ CHR 0x22 # CHR ''/'' # ''users'' @ CHR 0x22 # '' }''"
    by simp
  have ws: "\<forall>c \<in> set '' ''. isSpace c" by (simp add: isSpace_def)
  have q: "isQuote2 (CHR 0x22)" by (simp add: isQuote2_def)
  have body: "''users'' \<noteq> []" "\<forall>c \<in> set ''users''. \<not> isQuote2 c" by (simp_all add: isQuote2_def)
  have key: "\<not> (\<exists>u w. CHR ''/'' # ''users'' = u @ ''url:'' @ w \<and> (\<forall>c \<in> set w. isSpace c))"
    by (rule no_colon_no_key) simp
  have earlier: "\<forall>j < length ''a, ''. \<forall>m cap r.
                    match_here urlLiteralRe (drop j ?code) = Some (m, cap, r) \<longrightarrow>
                    j + length m \<le> length ''a, ''"
    by (simp add: less_Suc_eq urlLiteralRe_def patterns run.simps)
  from url_literal_yields_descriptor [OF code ws q q body key earlier refl]
  show ?thesis by simp
qed

end
